theory Spec2Isabelle
  imports Main "HOL-Library.Word"
begin

section \<open>Go runtime failures\<close>

text \<open>
  A slice index or a re-slice outside the bounds of a slice panics in Go. The models
  below return the panic as a value, so that "never writes outside the slice" is a
  statement about the result.
\<close>

datatype go_panic = IndexOutOfRange

section \<open>proto/batch.go: MsgBatch\<close>

text \<open>
  A \<^verbatim>\<open>*Message\<close> is a pointer: \<open>None\<close> is \<^verbatim>\<open>nil\<close>, \<open>Some a\<close> the message at
  address \<open>a\<close>. A \<^verbatim>\<open>*MsgBatch\<close> and a \<^verbatim>\<open>chan struct{}\<close> are references as well.
\<close>

type_synonym msg_ptr = "nat option"
type_synonym batch_ptr = "nat option"
type_synonym chan_ref = "nat option"

definition msgBatchStateNotReady :: "32 word" where
  "msgBatchStateNotReady = 0"

definition msgBatchStateDone :: "32 word" where
  "msgBatchStateDone = 1"

definition defaultMsgBatchSize :: nat where
  "defaultMsgBatchSize = 2"

definition maxRetryTimes :: nat where
  "maxRetryTimes = 8"

text \<open>
  The struct \<^verbatim>\<open>MsgBatchAllocator\<close>. The Go map \<^verbatim>\<open>mbMap\<close> is the list of its
  entries (node, address of the batch), one per node; \<^verbatim>\<open>len(m.mbMap)\<close> is the length
  of the list.
\<close>

record MsgBatchAllocator =
  mbMap :: "(string \<times> nat) list"
  dc :: chan_ref
  timeout :: int
  quickSearch :: "string list"

text \<open>
  The struct \<^verbatim>\<open>MsgBatch\<close>. The field \<open>buf\<close> holds the bytes of the
  \<^verbatim>\<open>*bufio.Buffer\<close>; \<open>msgs\<close> is the slice up to its length.
\<close>

record MsgBatch =
  buf :: string
  msgs :: "msg_ptr list"
  count :: int
  dc :: chan_ref
  state :: "32 word"
  parent :: batch_ptr

text \<open>The value \<^verbatim>\<open>msgBatchPool.New\<close> builds.\<close>

definition pool_New :: MsgBatch where
  "pool_New = \<lparr> buf = [], msgs = replicate defaultMsgBatchSize None, count = 0,
                dc = None, state = msgBatchStateNotReady, parent = None \<rparr>"

text \<open>
  \<^verbatim>\<open>AddMsg\<close>: append when the slice is full, else overwrite the slot at \<open>count\<close>;
  the indexed write panics outside \<open>0 \<le> count < len(msgs)\<close>.
\<close>

definition AddMsg :: "MsgBatch \<Rightarrow> msg_ptr \<Rightarrow> go_panic + MsgBatch" where
  "AddMsg m msg =
     (if int (length (msgs m)) \<le> count m
      then Inr (m\<lparr> msgs := msgs m @ [msg], count := count m + 1 \<rparr>)
      else if count m < 0 then Inl IndexOutOfRange
      else Inr (m\<lparr> msgs := (msgs m)[nat (count m) := msg], count := count m + 1 \<rparr>))"

definition Count :: "MsgBatch \<Rightarrow> int" where
  "Count m = count m"

text \<open>\<^verbatim>\<open>Nth\<close>: the read \<^verbatim>\<open>m.msgs[i]\<close> panics for a negative or too large index.\<close>

definition Nth :: "MsgBatch \<Rightarrow> int \<Rightarrow> go_panic + msg_ptr" where
  "Nth m i =
     (if i < count m
      then (if 0 \<le> i \<and> i < int (length (msgs m)) then Inr (msgs m ! nat i)
            else Inl IndexOutOfRange)
      else Inr None)"

text \<open>
  Modelled from the spec: \<^verbatim>\<open>lib/bufio\<close> is not among the sources; \<^verbatim>\<open>Buffer.Reset\<close>
  empties the buffer ("Reset clears count/buffer/state but retains capacity").
\<close>

definition bufio_Buffer_Reset :: "string \<Rightarrow> string" where
  "bufio_Buffer_Reset b = []"

definition Reset :: "MsgBatch \<Rightarrow> MsgBatch" where
  "Reset m = m\<lparr> state := msgBatchStateNotReady, count := 0,
                buf := bufio_Buffer_Reset (buf m), parent := None \<rparr>"

text \<open>\<^verbatim>\<open>Msgs\<close>: the re-slice \<^verbatim>\<open>m.msgs[:m.count]\<close>.\<close>

definition Msgs :: "MsgBatch \<Rightarrow> go_panic + msg_ptr list" where
  "Msgs m =
     (if 0 \<le> count m \<and> count m \<le> int (length (msgs m))
      then Inr (take (nat (count m)) (msgs m))
      else Inl IndexOutOfRange)"

definition IsDone :: "MsgBatch \<Rightarrow> bool" where
  "IsDone m = (state m = msgBatchStateDone)"

text \<open>A run of \<^verbatim>\<open>AddMsg\<close> calls, stopping at the first panic.\<close>

fun AddMsgs :: "MsgBatch \<Rightarrow> msg_ptr list \<Rightarrow> go_panic + MsgBatch" where
  "AddMsgs m [] = Inr m"
| "AddMsgs m (x # xs) = (case AddMsg m x of Inl e \<Rightarrow> Inl e | Inr m' \<Rightarrow> AddMsgs m' xs)"

text \<open>The invariant of the slice: the count stays within the length.\<close>

definition batch_ok :: "MsgBatch \<Rightarrow> bool" where
  "batch_ok m = (0 \<le> count m \<and> count m \<le> int (length (msgs m)))"

section \<open>proto/batch.go: the objects behind the pointers\<close>

text \<open>
  \<^verbatim>\<open>Fork\<close> and \<^verbatim>\<open>Done\<close> follow \<^verbatim>\<open>parent\<close> pointers and send on a channel that
  several batches share, so they run on a store: the \<^verbatim>\<open>MsgBatch\<close> object at every
  address, the objects \<^verbatim>\<open>msgBatchPool\<close> holds, the first address not yet allocated,
  and the channels. Of a \<^verbatim>\<open>chan struct{}\<close> the store keeps the capacity of its buffer
  and the number of signals queued in it.
\<close>

record chan =
  capacity :: nat
  pending :: nat

record store =
  batches :: "nat \<Rightarrow> MsgBatch"
  pool :: "nat list"
  fresh :: nat
  chans :: "nat \<Rightarrow> chan"

text \<open>
  \<^verbatim>\<open>NewMsgBatch\<close> is \<^verbatim>\<open>msgBatchPool.Get()\<close>. A \<^verbatim>\<open>sync.Pool\<close> hands out any
  object it holds or calls \<^verbatim>\<open>New\<close>; the argument \<open>pick\<close> is that choice: \<open>Some k\<close>
  takes the \<open>k\<close>-th pooled object when there is one, anything else allocates.
\<close>

definition NewMsgBatch :: "nat option \<Rightarrow> store \<Rightarrow> nat \<times> store" where
  "NewMsgBatch pick s =
     (case pick of
        Some k \<Rightarrow>
          if k < length (pool s)
          then (pool s ! k, s\<lparr> pool := take k (pool s) @ drop (Suc k) (pool s) \<rparr>)
          else (fresh s, s\<lparr> batches := (batches s)(fresh s := pool_New), fresh := Suc (fresh s) \<rparr>)
      | None \<Rightarrow>
          (fresh s, s\<lparr> batches := (batches s)(fresh s := pool_New), fresh := Suc (fresh s) \<rparr>))"

text \<open>
  The loop of \<^verbatim>\<open>Fork\<close> and \<^verbatim>\<open>Done\<close>: \<^verbatim>\<open>for { if p.parent == nil {...}; p = p.parent }\<close>.
  It has no bound; \<open>None\<close> is the loop that never ends.
\<close>

partial_function (option) walk_root :: "(nat \<Rightarrow> MsgBatch) \<Rightarrow> nat \<Rightarrow> nat option" where
  "walk_root h p = (case parent (h p) of None \<Rightarrow> Some p | Some q \<Rightarrow> walk_root h q)"

definition Fork :: "nat option \<Rightarrow> store \<Rightarrow> nat \<Rightarrow> (nat \<times> store) option" where
  "Fork pick s m =
     (let (mb, s1) = NewMsgBatch pick s;
          h1 = (batches s1)(mb := (batches s1 mb)\<lparr> dc := dc (batches s1 m) \<rparr>)
      in case walk_root h1 m of
           None \<Rightarrow> None
         | Some p \<Rightarrow> Some (mb, s1\<lparr> batches := h1(mb := (h1 mb)\<lparr> parent := Some p \<rparr>) \<rparr>))"

text \<open>
  \<^verbatim>\<open>select { case ch <- struct{}{}: default: }\<close>: the send goes through when the
  buffer has room; on a nil channel and on a full buffer the default branch runs and
  the signal is dropped. (A receiver blocked on the channel takes the signal out of
  the buffer in a step of its own.)
\<close>

definition signal :: "chan \<Rightarrow> chan" where
  "signal c = (if pending c < capacity c then c\<lparr> pending := Suc (pending c) \<rparr> else c)"

definition try_send :: "chan_ref \<Rightarrow> store \<Rightarrow> store" where
  "try_send ch s =
     (case ch of
        None \<Rightarrow> s
      | Some c \<Rightarrow> s\<lparr> chans := (chans s)(c := signal (chans s c)) \<rparr>)"

definition Done :: "store \<Rightarrow> nat \<Rightarrow> store option" where
  "Done s m =
     (case walk_root (batches s) m of
        None \<Rightarrow> None
      | Some p \<Rightarrow>
          Some (try_send (dc (batches s m))
                  (s\<lparr> batches := (batches s)(p := (batches s p)\<lparr> state := msgBatchStateDone \<rparr>) \<rparr>)))"

text \<open>\<open>Dones n s m\<close>: \<^verbatim>\<open>m.Done()\<close> called \<open>n\<close> times in a row.\<close>

fun Dones :: "nat \<Rightarrow> store \<Rightarrow> nat \<Rightarrow> store option" where
  "Dones 0 s m = Some s"
| "Dones (Suc n) s m = (case Done s m of None \<Rightarrow> None | Some s' \<Rightarrow> Dones n s' m)"

text \<open>\<open>forked s m s' b\<close>: a chain of \<^verbatim>\<open>Fork\<close> calls leads from \<open>m\<close> in \<open>s\<close> to \<open>b\<close> in \<open>s'\<close>.\<close>

inductive forked :: "store \<Rightarrow> nat \<Rightarrow> store \<Rightarrow> nat \<Rightarrow> bool" where
  forked_self: "forked s m s m"
| forked_step: "forked s m s1 b1 \<Longrightarrow> Fork pick s1 b1 = Some (b2, s2) \<Longrightarrow> forked s m s2 b2"

text \<open>
  The stores the program builds: every parent link of an allocated batch points to an
  allocated batch that is in use (not in the pool) and has no parent itself, and the
  pooled objects are allocated, each pooled once. A batch is in use when it is allocated and not pooled.
\<close>

definition store_ok :: "store \<Rightarrow> bool" where
  "store_ok s =
     ((\<forall>a < fresh s. \<forall>p. parent (batches s a) = Some p \<longrightarrow>
          p < fresh s \<and> p \<notin> set (pool s) \<and> parent (batches s p) = None)
      \<and> (\<forall>a \<in> set (pool s). a < fresh s) \<and> distinct (pool s))"

definition in_use :: "store \<Rightarrow> nat \<Rightarrow> bool" where
  "in_use s m = (m < fresh s \<and> m \<notin> set (pool s))"

text \<open>Where the walk ends when every parent is a root: after at most one step.\<close>

definition root_of :: "(nat \<Rightarrow> MsgBatch) \<Rightarrow> nat \<Rightarrow> nat" where
  "root_of h m = (case parent (h m) of None \<Rightarrow> m | Some p \<Rightarrow> p)"

text \<open>
  A store to run the functions on: one batch in use, at address 0, whose done-channel
  is the channel 0, of depth 1 and empty; nothing pooled.
\<close>

definition example_store :: store where
  "example_store =
     \<lparr> batches = (\<lambda>_. pool_New)(0 := pool_New\<lparr> dc := Some 0 \<rparr>), pool = [], fresh = 1,
       chans = (\<lambda>_. \<lparr> capacity = 1, pending = 0 \<rparr>) \<rparr>"

section \<open>proto/batch.go: MsgBatchAllocator\<close>

datatype batch_error = ErrTimeout | ErrMaxRetryReached

text \<open>
  \<^verbatim>\<open>checkAllDone\<close> ranges over the map; the loop below takes its entries in the
  order of the list. \<open>h\<close> is the \<^verbatim>\<open>MsgBatch\<close> objects at the time of the check.
\<close>

fun checkAllDone_range :: "(nat \<Rightarrow> MsgBatch) \<Rightarrow> (string \<times> nat) list \<Rightarrow> bool" where
  "checkAllDone_range h [] = True"
| "checkAllDone_range h (e # es) =
     (if Count (h (snd e)) > 0
      then (if \<not> IsDone (h (snd e)) then False else checkAllDone_range h es)
      else checkAllDone_range h es)"

definition checkAllDone :: "MsgBatchAllocator \<Rightarrow> (nat \<Rightarrow> MsgBatch) \<Rightarrow> bool" where
  "checkAllDone m h = checkAllDone_range h (mbMap m)"

text \<open>
  \<^verbatim>\<open>Wait\<close> blocks in \<^verbatim>\<open>select\<close> on the done-channel and on the timer
  \<^verbatim>\<open>time.After(m.timeout)\<close>. What the other goroutines do is the input \<open>sched\<close>: the
  signals that \<^verbatim>\<open>Wait\<close> would receive before the timer's branch is taken, in order,
  each with the \<^verbatim>\<open>MsgBatch\<close> objects as they are when it is received. When \<open>sched\<close> is
  used up the timer's branch runs. Nothing is ever received from a nil channel. The
  result is the error (\<open>None\<close> is nil) and the signals left unreceived.
\<close>

definition signals :: "MsgBatchAllocator \<Rightarrow> 'a list \<Rightarrow> 'a list" where
  "signals m sched = (if MsgBatchAllocator.dc m = None then [] else sched)"

function Wait_for ::
  "MsgBatchAllocator \<Rightarrow> nat \<Rightarrow> nat \<Rightarrow> (nat \<Rightarrow> MsgBatch) list
   \<Rightarrow> batch_error option \<times> (nat \<Rightarrow> MsgBatch) list" where
  "Wait_for m i bound sched =
     (if i < bound
      then (case sched of
              [] \<Rightarrow> (Some ErrTimeout, [])
            | h # rest \<Rightarrow> if checkAllDone m h then (None, rest) else Wait_for m (i + 1) bound rest)
      else (Some ErrMaxRetryReached, sched))"
  by pat_completeness auto
termination
  by (relation "measure (\<lambda>(m, i, bound, sched). bound - i)") auto

declare Wait_for.simps [simp del]

definition Wait ::
  "MsgBatchAllocator \<Rightarrow> (nat \<Rightarrow> MsgBatch) list
   \<Rightarrow> batch_error option \<times> (nat \<Rightarrow> MsgBatch) list" where
  "Wait m sched =
     (let mbLen = length (mbMap m) in
      if mbLen = 0
      then (case signals m sched of
              [] \<Rightarrow> (Some ErrTimeout, sched)
            | h # rest \<Rightarrow> if checkAllDone m h then (None, rest) else (Some ErrMaxRetryReached, rest))
      else (case Wait_for m 0 (mbLen + maxRetryTimes) (signals m sched) of
              (e, rest) \<Rightarrow> (e, if MsgBatchAllocator.dc m = None then sched else rest)))"

text \<open>The loop of \<^verbatim>\<open>Wait\<close> by the number of rounds it has left.\<close>

fun rounds ::
  "MsgBatchAllocator \<Rightarrow> nat \<Rightarrow> (nat \<Rightarrow> MsgBatch) list
   \<Rightarrow> batch_error option \<times> (nat \<Rightarrow> MsgBatch) list" where
  "rounds m 0 sched = (Some ErrMaxRetryReached, sched)"
| "rounds m (Suc k) [] = (Some ErrTimeout, [])"
| "rounds m (Suc k) (h # rest) = (if checkAllDone m h then (None, rest) else rounds m k rest)"

text \<open>
  Inputs to run \<^verbatim>\<open>Wait\<close> on: an allocator with one node batch (at address 0) and one
  with none, and the objects with that batch holding one message, not done and done.
\<close>

definition example_alloc :: MsgBatchAllocator where
  "example_alloc = \<lparr> mbMap = [(''10.0.0.1:11211'', 0)], dc = Some 0, timeout = 1000,
                       quickSearch = [] \<rparr>"

definition example_no_batches :: MsgBatchAllocator where
  "example_no_batches = \<lparr> mbMap = [], dc = Some 0, timeout = 1000, quickSearch = [] \<rparr>"

definition example_pending :: "nat \<Rightarrow> MsgBatch" where
  "example_pending = (\<lambda>_. pool_New)(0 := pool_New\<lparr> count := 1 \<rparr>)"

definition example_done :: "nat \<Rightarrow> MsgBatch" where
  "example_done = (\<lambda>_. pool_New)(0 := pool_New\<lparr> count := 1, state := msgBatchStateDone \<rparr>)"

section \<open>proto/redis/request.go\<close>

definition crlfBytes :: string where
  "crlfBytes = [CHR 0x0D, CHR 0x0A]"

text \<open>
  The command tables. Each is a byte string, the concatenation of its entries; an
  entry is the length of a command name, \<^verbatim>\<open>\r\n\<close>, and the name, which are the bytes
  the parser keeps of the bulk string that carries the command.
\<close>

definition reqReadCmds :: "string list" where
  "reqReadCmds =
     [''4'' @ crlfBytes @ ''DUMP'',
      ''6'' @ crlfBytes @ ''EXISTS'',
      ''4'' @ crlfBytes @ ''PTTL'',
      ''3'' @ crlfBytes @ ''TTL'',
      ''4'' @ crlfBytes @ ''TYPE'',
      ''8'' @ crlfBytes @ ''BITCOUNT'',
      ''6'' @ crlfBytes @ ''BITPOS'',
      ''3'' @ crlfBytes @ ''GET'',
      ''6'' @ crlfBytes @ ''GETBIT'',
      ''8'' @ crlfBytes @ ''GETRANGE'',
      ''4'' @ crlfBytes @ ''MGET'',
      ''6'' @ crlfBytes @ ''STRLEN'',
      ''7'' @ crlfBytes @ ''HEXISTS'',
      ''4'' @ crlfBytes @ ''HGET'',
      ''7'' @ crlfBytes @ ''HGETALL'',
      ''5'' @ crlfBytes @ ''HKEYS'',
      ''4'' @ crlfBytes @ ''HLEN'',
      ''5'' @ crlfBytes @ ''HMGET'',
      ''7'' @ crlfBytes @ ''HSTRLEN'',
      ''5'' @ crlfBytes @ ''HVALS'',
      ''5'' @ crlfBytes @ ''HSCAN'',
      ''5'' @ crlfBytes @ ''SCARD'',
      ''5'' @ crlfBytes @ ''SDIFF'',
      ''6'' @ crlfBytes @ ''SINTER'',
      ''9'' @ crlfBytes @ ''SISMEMBER'',
      ''8'' @ crlfBytes @ ''SMEMBERS'',
      ''11'' @ crlfBytes @ ''SRANDMEMBER'',
      ''6'' @ crlfBytes @ ''SUNION'',
      ''5'' @ crlfBytes @ ''SSCAN'',
      ''5'' @ crlfBytes @ ''ZCARD'',
      ''6'' @ crlfBytes @ ''ZCOUNT'',
      ''9'' @ crlfBytes @ ''ZLEXCOUNT'',
      ''6'' @ crlfBytes @ ''ZRANGE'',
      ''11'' @ crlfBytes @ ''ZRANGEBYLEX'',
      ''13'' @ crlfBytes @ ''ZRANGEBYSCORE'',
      ''5'' @ crlfBytes @ ''ZRANK'',
      ''9'' @ crlfBytes @ ''ZREVRANGE'',
      ''14'' @ crlfBytes @ ''ZREVRANGEBYLEX'',
      ''16'' @ crlfBytes @ ''ZREVRANGEBYSCORE'',
      ''8'' @ crlfBytes @ ''ZREVRANK'',
      ''6'' @ crlfBytes @ ''ZSCORE'',
      ''5'' @ crlfBytes @ ''ZSCAN'',
      ''6'' @ crlfBytes @ ''LINDEX'',
      ''4'' @ crlfBytes @ ''LLEN'',
      ''6'' @ crlfBytes @ ''LRANGE'',
      ''7'' @ crlfBytes @ ''PFCOUNT'']"

definition reqReadCmdsBytes :: string where
  "reqReadCmdsBytes = concat reqReadCmds"

definition reqWriteCmds :: "string list" where
  "reqWriteCmds =
     [''3'' @ crlfBytes @ ''DEL'',
      ''6'' @ crlfBytes @ ''EXPIRE'',
      ''8'' @ crlfBytes @ ''EXPIREAT'',
      ''7'' @ crlfBytes @ ''PERSIST'',
      ''7'' @ crlfBytes @ ''PEXPIRE'',
      ''9'' @ crlfBytes @ ''PEXPIREAT'',
      ''7'' @ crlfBytes @ ''RESTORE'',
      ''4'' @ crlfBytes @ ''SORT'',
      ''6'' @ crlfBytes @ ''APPEND'',
      ''4'' @ crlfBytes @ ''DECR'',
      ''6'' @ crlfBytes @ ''DECRBY'',
      ''6'' @ crlfBytes @ ''GETSET'',
      ''4'' @ crlfBytes @ ''INCR'',
      ''6'' @ crlfBytes @ ''INCRBY'',
      ''11'' @ crlfBytes @ ''INCRBYFLOAT'',
      ''4'' @ crlfBytes @ ''MSET'',
      ''6'' @ crlfBytes @ ''PSETEX'',
      ''3'' @ crlfBytes @ ''SET'',
      ''6'' @ crlfBytes @ ''SETBIT'',
      ''5'' @ crlfBytes @ ''SETEX'',
      ''5'' @ crlfBytes @ ''SETNX'',
      ''8'' @ crlfBytes @ ''SETRANGE'',
      ''4'' @ crlfBytes @ ''HDEL'',
      ''7'' @ crlfBytes @ ''HINCRBY'',
      ''12'' @ crlfBytes @ ''HINCRBYFLOAT'',
      ''5'' @ crlfBytes @ ''HMSET'',
      ''4'' @ crlfBytes @ ''HSET'',
      ''6'' @ crlfBytes @ ''HSETNX'',
      ''7'' @ crlfBytes @ ''LINSERT'',
      ''4'' @ crlfBytes @ ''LPOP'',
      ''5'' @ crlfBytes @ ''LPUSH'',
      ''6'' @ crlfBytes @ ''LPUSHX'',
      ''4'' @ crlfBytes @ ''LREM'',
      ''4'' @ crlfBytes @ ''LSET'',
      ''5'' @ crlfBytes @ ''LTRIM'',
      ''4'' @ crlfBytes @ ''RPOP'',
      ''9'' @ crlfBytes @ ''RPOPLPUSH'',
      ''5'' @ crlfBytes @ ''RPUSH'',
      ''6'' @ crlfBytes @ ''RPUSHX'',
      ''4'' @ crlfBytes @ ''SADD'',
      ''5'' @ crlfBytes @ ''SMOVE'',
      ''4'' @ crlfBytes @ ''SPOP'',
      ''4'' @ crlfBytes @ ''SREM'',
      ''4'' @ crlfBytes @ ''ZADD'',
      ''7'' @ crlfBytes @ ''ZINCRBY'',
      ''11'' @ crlfBytes @ ''ZINTERSTORE'',
      ''4'' @ crlfBytes @ ''ZREM'',
      ''14'' @ crlfBytes @ ''ZREMRANGEBYLEX'',
      ''15'' @ crlfBytes @ ''ZREMRANGEBYRANK'',
      ''16'' @ crlfBytes @ ''ZREMRANGEBYSCORE'',
      ''5'' @ crlfBytes @ ''PFADD'',
      ''7'' @ crlfBytes @ ''PFMERGE'']"

definition reqWriteCmdsBytes :: string where
  "reqWriteCmdsBytes = concat reqWriteCmds"

definition reqNotSupportCmds :: "string list" where
  "reqNotSupportCmds =
     [''6'' @ crlfBytes @ ''MSETNX'',
      ''10'' @ crlfBytes @ ''SDIFFSTORE'',
      ''11'' @ crlfBytes @ ''SINTERSTORE'',
      ''11'' @ crlfBytes @ ''SUNIONSTORE'',
      ''11'' @ crlfBytes @ ''ZUNIONSTORE'',
      ''5'' @ crlfBytes @ ''BLPOP'',
      ''5'' @ crlfBytes @ ''BRPOP'',
      ''10'' @ crlfBytes @ ''BRPOPLPUSH'',
      ''4'' @ crlfBytes @ ''KEYS'',
      ''7'' @ crlfBytes @ ''MIGRATE'',
      ''4'' @ crlfBytes @ ''MOVE'',
      ''6'' @ crlfBytes @ ''OBJECT'',
      ''9'' @ crlfBytes @ ''RANDOMKEY'',
      ''6'' @ crlfBytes @ ''RENAME'',
      ''8'' @ crlfBytes @ ''RENAMENX'',
      ''4'' @ crlfBytes @ ''SCAN'',
      ''4'' @ crlfBytes @ ''WAIT'',
      ''5'' @ crlfBytes @ ''BITOP'',
      ''4'' @ crlfBytes @ ''EVAL'',
      ''7'' @ crlfBytes @ ''EVALSHA'',
      ''4'' @ crlfBytes @ ''AUTH'',
      ''4'' @ crlfBytes @ ''ECHO'',
      ''4'' @ crlfBytes @ ''INFO'',
      ''5'' @ crlfBytes @ ''PROXY'',
      ''7'' @ crlfBytes @ ''SLOWLOG'',
      ''6'' @ crlfBytes @ ''SELECT'',
      ''4'' @ crlfBytes @ ''TIME'',
      ''6'' @ crlfBytes @ ''CONFIG'',
      ''8'' @ crlfBytes @ ''COMMANDS'']"

definition reqNotSupportCmdsBytes :: string where
  "reqNotSupportCmdsBytes = concat reqNotSupportCmds"

definition reqCtlCmds :: "string list" where
  "reqCtlCmds =
     [''4'' @ crlfBytes @ ''QUIT'',
      ''4'' @ crlfBytes @ ''PING'']"

definition reqCtlCmdsBytes :: string where
  "reqCtlCmdsBytes = concat reqCtlCmds"

text \<open>
  \<^verbatim>\<open>bytes.HasPrefix\<close> and \<^verbatim>\<open>bytes.Contains\<close> of the Go library: \<open>sub\<close> occurs in \<open>b\<close>
  when it is a prefix of \<open>b\<close> from some position on.
\<close>

fun HasPrefix :: "string \<Rightarrow> string \<Rightarrow> bool" where
  "HasPrefix s [] = True"
| "HasPrefix [] (p # ps) = False"
| "HasPrefix (c # cs) (p # ps) = (c = p \<and> HasPrefix cs ps)"

fun Contains :: "string \<Rightarrow> string \<Rightarrow> bool" where
  "Contains [] sub = HasPrefix [] sub"
| "Contains (c # cs) sub = (HasPrefix (c # cs) sub \<or> Contains cs sub)"

text \<open>
  Modelled from the spec: the type \<^verbatim>\<open>resp\<close> is declared outside the sources. A node has
  its type byte, its data, and its \<open>arrayn\<close> children in \<open>array\<close>; a request is an array
  of bulk strings, the first of them the command.
\<close>

datatype resp = Resp (rTp: "8 word") (data: string) (array: "resp list") (arrayn: int)

text \<open>The struct \<^verbatim>\<open>Request\<close>; \<open>reply\<close> may be nil.\<close>

record Request =
  resp :: resp
  reply :: "resp option"
  mType :: "8 word"

text \<open>\<^verbatim>\<open>IsSupport\<close>; \<^verbatim>\<open>r.resp.array[0]\<close> panics on an empty slice.\<close>

definition IsSupport :: "Request \<Rightarrow> go_panic + bool" where
  "IsSupport r =
     (if arrayn (resp r) < 1 then Inr False
      else case array (resp r) of
             [] \<Rightarrow> Inl IndexOutOfRange
           | c # _ \<Rightarrow>
               Inr (Contains reqReadCmdsBytes (data c)
                    \<or> Contains reqWriteCmdsBytes (data c)
                    \<or> Contains reqCtlCmdsBytes (data c)))"

text \<open>\<^verbatim>\<open>IsCtl\<close>.\<close>

definition IsCtl :: "Request \<Rightarrow> go_panic + bool" where
  "IsCtl r =
     (if arrayn (resp r) < 1 then Inr False
      else case array (resp r) of
             [] \<Rightarrow> Inl IndexOutOfRange
           | c # _ \<Rightarrow> Inr (Contains reqCtlCmdsBytes (data c)))"

text \<open>A request: the command \<open>cmd\<close> with one key.\<close>

definition example_request :: "string \<Rightarrow> Request" where
  "example_request cmd =
     \<lparr> resp = Resp 0x2A [] [Resp 0x24 cmd [] 0, Resp 0x24 (''1'' @ crlfBytes @ ''a'') [] 0] 2,
       reply = None, mType = 0 \<rparr>"

section \<open>proto/memcache: the handler of a backend connection\<close>

text \<open>
  Modelled from the spec: the type \<^verbatim>\<open>RequestType\<close> and its \<^verbatim>\<open>String\<close> method are
  declared outside the sources; the requests are the ones the spec lists, by their
  names on the wire.
\<close>

datatype RequestType =
    RequestTypeUnknown
  | RequestTypeSet | RequestTypeAdd | RequestTypeReplace | RequestTypeAppend
  | RequestTypePrepend | RequestTypeCas
  | RequestTypeGet | RequestTypeGets
  | RequestTypeDelete | RequestTypeIncr | RequestTypeDecr | RequestTypeTouch
  | RequestTypeGat | RequestTypeGats


text \<open>
  Modelled from the spec: the byte constants of the package are declared outside the
  sources; a line ends in \<^verbatim>\<open>\r\n\<close>, the terminator line is \<^verbatim>\<open>END\r\n\<close>, tokens are
  separated by one space, and a line is read up to \<^verbatim>\<open>\n\<close>.
\<close>

definition spaceByte :: char where
  "spaceByte = CHR '' ''"

definition spaceBytes :: string where
  "spaceBytes = [spaceByte]"

definition delim :: char where
  "delim = CHR 0x0A"

definition endBytes :: string where
  "endBytes = ''END'' @ [CHR 0x0D, CHR 0x0A]"



definition handlerWriteBufferSize :: nat where
  "handlerWriteBufferSize = 8 * 1024"

definition handlerReadBufferSize :: nat where
  "handlerReadBufferSize = 128 * 1024"

text \<open>
  Modelled from the spec: the error values of the package are declared outside the
  sources. An error \<^verbatim>\<open>Handle\<close> returns is \<^verbatim>\<open>errors.Wrap(cause, message)\<close>; \<open>ErrIO\<close> stands
  for the error of a failed read or write on the connection.
\<close>

datatype mc_cause = ErrClosed | ErrAssertRequest | ErrBadResponse | ErrIO

datatype mc_error = Wrap mc_cause string

text \<open>
  Modelled from the spec: the structs \<^verbatim>\<open>MCRequest\<close>, \<^verbatim>\<open>MCResponse\<close>, \<^verbatim>\<open>proto.Response\<close>
  and \<^verbatim>\<open>proto.Request\<close> are declared outside the sources; they have the fields
  \<^verbatim>\<open>Handle\<close> reads and writes. A request is a linked list through \<^verbatim>\<open>Next\<close>, here the list
  of the values \<^verbatim>\<open>Proto()\<close> returns, each an \<^verbatim>\<open>*MCRequest\<close> or a value of another type.
\<close>

record MCRequest =
  rTp :: RequestType
  key :: string
  data :: string

record MCResponse =
  rTp :: RequestType
  data :: string

datatype CacheType = CacheTypeUnknown | CacheTypeMemcache | CacheTypeRedis



text \<open>
  The connection with everything behind it. \<open>wire_out\<close> is the bytes the backend has
  been sent, \<open>wire_in\<close> the bytes it answers with that have not been read yet (the
  buffer of the \<^verbatim>\<open>bufio.Reader\<close> included), \<open>write_err\<close> says that writing fails, and
  \<open>events\<close> is the order of the writes and reads on the connection. Deadlines only bound
  how long an operation may block: an expired one shows as a failed read or write.
\<close>

datatype io_event = Written string | Read string

record conn =
  wire_out :: string
  wire_in :: string
  write_err :: bool
  conn_closed :: bool
  events :: "io_event list"

text \<open>
  Modelled from the spec: \<^verbatim>\<open>lib/stat\<close> is not among the sources; it counts hits and
  misses per cluster and address.
\<close>

record stat =
  hit :: "string \<times> string \<Rightarrow> nat"
  miss :: "string \<times> string \<Rightarrow> nat"

definition stat_Hit :: "string \<Rightarrow> string \<Rightarrow> stat \<Rightarrow> stat" where
  "stat_Hit c a st = st\<lparr> hit := (hit st)((c, a) := Suc (hit st (c, a))) \<rparr>"

definition stat_Miss :: "string \<Rightarrow> string \<Rightarrow> stat \<Rightarrow> stat" where
  "stat_Miss c a st = st\<lparr> miss := (miss st)((c, a) := Suc (miss st (c, a))) \<rparr>"

text \<open>
  The struct \<^verbatim>\<open>handler\<close>. \<open>bw\<close> is the bytes waiting in the \<^verbatim>\<open>bufio.Writer\<close>; the
  \<^verbatim>\<open>bufio.Reader\<close> \<open>br\<close> has no state of its own here, its bytes are the front of
  \<open>wire_in\<close>.
\<close>

record handler =
  cluster :: string
  addr :: string
  conn :: conn
  bw :: string
  bss :: "string list"
  buf :: string
  readTimeout :: int
  writeTimeout :: int
  closed :: "32 word"


definition bufio_ReadBytes :: "conn \<Rightarrow> char \<Rightarrow> mc_cause + (string \<times> conn)" where
  "bufio_ReadBytes c d =
     (if d \<in> set (wire_in c)
      then (let bs = takeWhile (\<lambda>x. x \<noteq> d) (wire_in c) @ [d]
            in Inr (bs, c\<lparr> wire_in := drop (length bs) (wire_in c),
                           events := events c @ [Read bs] \<rparr>))
      else Inl ErrIO)"

definition bufio_ReadFull :: "conn \<Rightarrow> int \<Rightarrow> mc_cause + (string \<times> conn)" where
  "bufio_ReadFull c n =
     (if 0 \<le> n \<and> n \<le> int (length (wire_in c))
      then Inr (take (nat n) (wire_in c),
                c\<lparr> wire_in := drop (nat n) (wire_in c),
                    events := events c @ [Read (take (nat n) (wire_in c))] \<rparr>)
      else Inl ErrIO)"

text \<open>
  \<^verbatim>\<open>bytes.Split(s, sep)\<close> of the Go library for a separator of one byte, as
  \<^verbatim>\<open>spaceBytes\<close> is: the pieces between the separators, one more than there are
  separators.
\<close>

fun bytes_Split1 :: "string \<Rightarrow> char \<Rightarrow> string list" where
  "bytes_Split1 [] sep = [[]]"
| "bytes_Split1 (c # cs) sep =
     (if c = sep then [] # bytes_Split1 cs sep
      else (case bytes_Split1 cs sep of
              [] \<Rightarrow> [[c]]
            | p # ps \<Rightarrow> (c # p) # ps))"

text \<open>
  Modelled from the spec: \<^verbatim>\<open>lib/conv\<close> is not among the sources. \<^verbatim>\<open>Btoi\<close> reads a
  decimal integer, an optional sign and at least one digit, and fails on anything
  else and on a value outside 64 bits.
\<close>

definition digit_val :: "char \<Rightarrow> nat option" where
  "digit_val c =
     (let n = (of_char c :: nat) in if 48 \<le> n \<and> n \<le> 57 then Some (n - 48) else None)"

fun parse_digits :: "nat \<Rightarrow> string \<Rightarrow> nat option" where
  "parse_digits acc [] = Some acc"
| "parse_digits acc (c # cs) =
     (case digit_val c of None \<Rightarrow> None | Some d \<Rightarrow> parse_digits (acc * 10 + d) cs)"

definition conv_Btoi :: "string \<Rightarrow> int option" where
  "conv_Btoi b =
     (let (neg, ds) = (case b of
                         c # cs \<Rightarrow> if c = CHR ''-'' then (True, cs)
                                   else if c = CHR ''+'' then (False, cs) else (False, b)
                       | [] \<Rightarrow> (False, b))
      in if ds = [] then None
         else case parse_digits 0 ds of
                None \<Rightarrow> None
              | Some n \<Rightarrow>
                  (let v = (if neg then - int n else int n)
                   in if - (2 ^ 63) \<le> v \<and> v < 2 ^ 63 then Some v else None))"

text \<open>
  \<^verbatim>\<open>makeBytes\<close>: a slice of \<open>n\<close> bytes, cut from the slab \<open>buf\<close> when \<open>n\<close> is below the
  write buffer size (the slab is renewed when it is too short), else allocated.
\<close>

definition makeBytes :: "handler \<Rightarrow> nat \<Rightarrow> string \<times> handler" where
  "makeBytes h n =
     (if n = 0 then ([], h)
      else if n \<ge> handlerWriteBufferSize then (replicate n (CHR 0x00), h)
      else (let b = (if length (buf h) < n then replicate handlerReadBufferSize (CHR 0x00)
                     else buf h)
            in (take n b, h\<lparr> buf := drop n b \<rparr>)))"

text \<open>
  \<^verbatim>\<open>copy(tmp[off:], src)\<close>: as many bytes of \<open>src\<close> as fit are written from \<open>off\<close> on.
\<close>

definition copy_at :: "string \<Rightarrow> nat \<Rightarrow> string \<Rightarrow> string" where
  "copy_at tmp off src =
     take off tmp @ take (length tmp - off) src @ drop (off + length src) tmp"

text \<open>The loop \<^verbatim>\<open>for i := range h.bss { copy(tmp[off:], h.bss[i]); off += len(h.bss[i]) }\<close>.\<close>

fun copy_all :: "string \<Rightarrow> nat \<Rightarrow> string list \<Rightarrow> string \<times> nat" where
  "copy_all tmp off [] = (tmp, off)"
| "copy_all tmp off (b # bs) = copy_all (copy_at tmp off b) (off + length b) bs"

text \<open>
  The loop that reads on to the terminator line: every line before it is appended to
  \<open>bss\<close> and counted in \<open>tl\<close>. It has no bound of its own; on a connection with
  finitely many bytes to read it ends, since every line read takes at least one byte.
  The result is the connection, \<open>bss\<close> and \<open>tl\<close> when the loop is left, and the error
  it is left with, if any.
\<close>

function reread :: "conn \<Rightarrow> string list \<Rightarrow> nat \<Rightarrow> string option
                    \<Rightarrow> conn \<times> string list \<times> nat \<times> mc_error option" where
  "reread c bss0 tl0 bs3 =
     (if bs3 = Some endBytes then (c, bss0, tl0, None)
      else (let (bss1, tl1) = (case bs3 of None \<Rightarrow> (bss0, tl0)
                                | Some l \<Rightarrow> (bss0 @ [l], tl0 + length l))
            in case bufio_ReadBytes c delim of
                 Inl e \<Rightarrow> (c, bss1, tl1, Some (Wrap e ''MC Handler handle reread response bytes''))
               | Inr (l, c') \<Rightarrow> reread c' bss1 tl1 (Some l)))"
  by pat_completeness auto
termination
proof (relation "measure (\<lambda>(c, bss0, tl0, bs3). length (wire_in c))", goal_cases)
  case 1
  show ?case by simp
next
  case (2 c bss0 tl0 bs3 x xa y xb xc ya)
  then have r: "bufio_ReadBytes c delim = Inr (xc, ya)" by simp
  then have m: "delim \<in> set (wire_in c)"
    by (auto simp: bufio_ReadBytes_def split: if_splits)
  then have "wire_in c \<noteq> []" by auto
  moreover have "wire_in ya = drop (length xc) (wire_in c)" and "xc \<noteq> []"
    using r m by (auto simp: bufio_ReadBytes_def Let_def)
  ultimately show ?case by simp
qed

declare reread.simps [simp del]

text \<open>
  The end of the loop body for a hit: a slice of \<open>tl + endBytesLen\<close> bytes is made, the
  pieces in \<open>bss\<close> are copied into it one after the other, and \<^verbatim>\<open>endBytes\<close> after them.
\<close>

definition endBytesLen :: nat where
  "endBytesLen = 5"

definition join_reply :: "handler \<Rightarrow> nat \<Rightarrow> string \<times> handler" where
  "join_reply h tl0 =
     (let (tmp, h4) = makeBytes h (tl0 + endBytesLen);
          (tmp1, off) = copy_all tmp 0 (bss h4)
      in (copy_at tmp1 off endBytes, h4))"

definition is_retrieval :: "RequestType \<Rightarrow> bool" where
  "is_retrieval t =
     (t = RequestTypeGet \<or> t = RequestTypeGets \<or> t = RequestTypeGat \<or> t = RequestTypeGats)"

text \<open>\<^verbatim>\<open>int(length + 2)\<close>: the sum of two 64-bit integers wraps around.\<close>

definition plus2 :: "int \<Rightarrow> int" where
  "plus2 v = sint (word_of_int v + 2 :: 64 word)"

text \<open>
  The body of the second loop of \<^verbatim>\<open>Handle\<close>: the reply to one request is read, a
  retrieval's value blocks are put together in one slice, and the hit or the miss is
  counted. The result is the counters, the handler, and the reply bytes or the error
  \<^verbatim>\<open>Handle\<close> returns with. The first line is split at \<^verbatim>\<open>spaceBytes\<close>, the one byte
  \<open>spaceByte\<close>. (The slices a read returns are taken as values: what a later read does
  to the reader's buffer is outside the sources.)
\<close>

definition read_reply :: "stat \<Rightarrow> handler \<Rightarrow> MCRequest \<Rightarrow> stat \<times> handler \<times> (mc_error + string)" where
  "read_reply st h mcr =
     (case bufio_ReadBytes (conn h) delim of
        Inl e \<Rightarrow> (st, h, Inl (Wrap e ''MC Handler handle read response bytes''))
      | Inr (bs, c1) \<Rightarrow>
          (let h1 = h\<lparr> conn := c1 \<rparr> in
           if is_retrieval (MCRequest.rTp mcr) then
             (if bs \<noteq> endBytes then
                (let st1 = stat_Hit (cluster h) (addr h) st;
                     bss0 = bytes_Split1 bs spaceByte in
                 if length bss0 < 4
                 then (st1, h1, Inl (Wrap ErrBadResponse ''MC Handler handle read response bytes split''))
                 else if length bss0 = 4 \<and> length (bss0 ! 3) < 2
                 then (st1, h1, Inl (Wrap ErrBadResponse ''MC Handler handle read response bytes check''))
                 else
                   (let b3 = (if length bss0 = 4 then take (length (bss0 ! 3) - 2) (bss0 ! 3)
                              else bss0 ! 3) in
                    case conv_Btoi b3 of
                      None \<Rightarrow> (st1, h1, Inl (Wrap ErrBadResponse ''MC Handler handle read response bytes length''))
                    | Some len \<Rightarrow>
                        (case bufio_ReadFull c1 (plus2 len) of
                           Inl e \<Rightarrow> (st1, h1, Inl (Wrap ErrBadResponse ''MC Handler handle read response bytes read''))
                         | Inr (bs2, c2) \<Rightarrow>
                             (case reread c2 [bs, bs2] (length bs + length bs2) None of
                                (c3, bss3, tl3, Some e) \<Rightarrow>
                                  (st1, h1\<lparr> conn := c3, bss := bss3 \<rparr>, Inl e)
                              | (c3, bss3, tl3, None) \<Rightarrow>
                                  (let (bs', h4) = join_reply (h1\<lparr> conn := c3, bss := bss3 \<rparr>) tl3
                                   in (st1, h4, Inr bs'))))))
              else (stat_Miss (cluster h) (addr h) st, h1, Inr bs))
           else (st, h1, Inr bs)))"















section \<open>Properties of MsgBatch\<close>

subsection \<open>Reset\<close>

text \<open>
  C9: after \<^verbatim>\<open>Reset\<close> the count is 0, \<^verbatim>\<open>Msgs()\<close> is empty, \<^verbatim>\<open>IsDone()\<close> is false,
  the buffer is empty and the parent link is nil; the message slice and the
  done-channel field are the ones the batch had before.
\<close>

theorem Reset_clears_and_keeps:
  "Count (Reset m) = 0 \<and> Msgs (Reset m) = Inr [] \<and> \<not> IsDone (Reset m)
   \<and> MsgBatch.buf (Reset m) = [] \<and> parent (Reset m) = None
   \<and> msgs (Reset m) = msgs m \<and> length (msgs (Reset m)) = length (msgs m)
   \<and> dc (Reset m) = dc m"
  by (simp add: Reset_def Count_def Msgs_def IsDone_def bufio_Buffer_Reset_def
      msgBatchStateNotReady_def msgBatchStateDone_def)

subsection \<open>AddMsg and Nth\<close>

lemma AddMsg_ok:
  assumes "batch_ok m"
  shows "\<exists>m'. AddMsg m x = Inr m' \<and> batch_ok m' \<and> count m' = count m + 1
     \<and> take (nat (count m')) (msgs m') = take (nat (count m)) (msgs m) @ [x]
     \<and> length (msgs m') = max (length (msgs m)) (nat (count m) + 1)"
proof (cases "int (length (msgs m)) \<le> count m")
  case True
  with assms have eq: "nat (count m) = length (msgs m)" by (simp add: batch_ok_def)
  have "nat (count m + 1) = Suc (length (msgs m))" using eq assms unfolding batch_ok_def by linarith
  then show ?thesis using True eq by (simp add: AddMsg_def batch_ok_def)
next
  case False
  with assms have lt: "nat (count m) < length (msgs m)" and nn: "0 \<le> count m"
    by (auto simp: batch_ok_def)
  have s: "nat (count m + 1) = Suc (nat (count m))" using nn by simp
  have "take (Suc (nat (count m))) ((msgs m)[nat (count m) := x]) = take (nat (count m)) (msgs m) @ [x]"
    using lt by (simp add: take_Suc_conv_app_nth)
  then show ?thesis using False lt nn s by (simp add: AddMsg_def batch_ok_def max_def)
qed

lemma AddMsgs_ok:
  "batch_ok m \<Longrightarrow> \<exists>m'. AddMsgs m xs = Inr m' \<and> batch_ok m' \<and> count m' = count m + int (length xs)
     \<and> take (nat (count m')) (msgs m') = take (nat (count m)) (msgs m) @ xs
     \<and> length (msgs m') = max (length (msgs m)) (nat (count m) + length xs)"
proof (induction xs arbitrary: m)
  case Nil
  then show ?case by (auto simp: batch_ok_def max_def)
next
  case (Cons x xs)
  from AddMsg_ok[OF Cons.prems, of x] obtain m1 where
    a: "AddMsg m x = Inr m1" and ok: "batch_ok m1" and c: "count m1 = count m + 1"
    and t: "take (nat (count m1)) (msgs m1) = take (nat (count m)) (msgs m) @ [x]"
    and l: "length (msgs m1) = max (length (msgs m)) (nat (count m) + 1)" by blast
  from Cons.IH[OF ok] obtain m' where
    b: "AddMsgs m1 xs = Inr m'" and ok': "batch_ok m'" and c': "count m' = count m1 + int (length xs)"
    and t': "take (nat (count m')) (msgs m') = take (nat (count m1)) (msgs m1) @ xs"
    and l': "length (msgs m') = max (length (msgs m1)) (nat (count m1) + length xs)" by blast
  have nn: "0 \<le> count m" using Cons.prems by (simp add: batch_ok_def)
  have "length (msgs m') = max (length (msgs m)) (nat (count m) + length (x # xs))"
    using l l' c nn by (simp add: max_def nat_add_distrib)
  then show ?case using a b ok' c c' t t' by simp
qed

lemma Nth_take:
  "batch_ok m \<Longrightarrow> take (nat (count m)) (msgs m) = xs \<Longrightarrow> 0 \<le> i \<Longrightarrow>
   Nth m i = Inr (if i < count m then xs ! nat i else None)"
  by (auto simp: Nth_def batch_ok_def)

text \<open>
  C10: on a batch that was reset, after any run of \<^verbatim>\<open>AddMsg\<close> calls no call has
  panicked (no write outside the slice), the slice has grown only as far as the
  messages did not fit, \<^verbatim>\<open>Count()\<close> is the number of messages added, \<^verbatim>\<open>Msgs()\<close>
  is the messages in insertion order, and for every index \<open>i \<ge> 0\<close> \<^verbatim>\<open>Nth(i)\<close>
  returns without a panic: the \<open>i\<close>-th message added when \<open>i < Count()\<close>, nil otherwise.
\<close>

theorem Nth_AddMsg_in_order:
  "\<exists>m'. AddMsgs (Reset m) xs = Inr m' \<and> batch_ok m' \<and> Count m' = int (length xs)
     \<and> Msgs m' = Inr xs \<and> length (msgs m') = max (length (msgs m)) (length xs)
     \<and> (\<forall>i. 0 \<le> i \<longrightarrow> Nth m' i = Inr (if i < Count m' then xs ! nat i else None))"
proof -
  have ok: "batch_ok (Reset m)" by (simp add: batch_ok_def Reset_def)
  from AddMsgs_ok[OF ok, of xs] obtain m' where
    a: "AddMsgs (Reset m) xs = Inr m'" and ok': "batch_ok m'"
    and c: "count m' = count (Reset m) + int (length xs)"
    and t: "take (nat (count m')) (msgs m') = take (nat (count (Reset m))) (msgs (Reset m)) @ xs"
    and l: "length (msgs m') = max (length (msgs (Reset m))) (nat (count (Reset m)) + length xs)"
    by blast
  have c0: "count (Reset m) = 0" and ms: "msgs (Reset m) = msgs m" by (simp_all add: Reset_def)
  have t2: "take (nat (count m')) (msgs m') = xs" using t c0 by simp
  have "Msgs m' = Inr xs" using ok' t2 by (simp add: Msgs_def batch_ok_def)
  moreover have "\<forall>i. 0 \<le> i \<longrightarrow> Nth m' i = Inr (if i < Count m' then xs ! nat i else None)"
    using Nth_take[OF ok' t2] by (simp add: Count_def)
  ultimately show ?thesis using a ok' c c0 l ms by (auto simp: Count_def)
qed

theorem Nth_AddMsg_in_order_witness:
  "\<exists>m'. AddMsgs (Reset pool_New) [Some 7, Some 8, Some 9] = Inr m'
     \<and> Count m' = 3 \<and> length (msgs m') = 3
     \<and> Nth m' 0 = Inr (Some 7) \<and> Nth m' 1 = Inr (Some 8) \<and> Nth m' 2 = Inr (Some 9)
     \<and> Nth m' 3 = Inr None"
proof -
  from Nth_AddMsg_in_order[of pool_New "[Some 7, Some 8, Some 9]"] obtain m' where
    a: "AddMsgs (Reset pool_New) [Some 7, Some 8, Some 9] = Inr m'"
    and c: "Count m' = int (length [Some (7::nat), Some 8, Some 9])"
    and l: "length (msgs m') = max (length (msgs pool_New)) (length [Some (7::nat), Some 8, Some 9])"
    and n: "\<forall>i. 0 \<le> i \<longrightarrow> Nth m' i = Inr (if i < Count m' then [Some 7, Some 8, Some 9] ! nat i else None)"
    by blast
  have "Nth m' 0 = Inr (Some 7)" "Nth m' 1 = Inr (Some 8)" "Nth m' 2 = Inr (Some 9)" "Nth m' 3 = Inr None"
    using n c by (simp_all add: eval_nat_numeral)
  then show ?thesis using a c l by (auto simp: pool_New_def defaultMsgBatchSize_def)
qed

section \<open>Properties of Fork and Done\<close>

lemma walk_root_None: "parent (h m) = None \<Longrightarrow> walk_root h m = Some m"
  by (subst walk_root.simps) simp

lemma walk_root_Some: "parent (h m) = Some p \<Longrightarrow> walk_root h m = walk_root h p"
  by (subst walk_root.simps) simp

lemma store_ok_parent:
  "store_ok s \<Longrightarrow> a < fresh s \<Longrightarrow> parent (batches s a) = Some p \<Longrightarrow>
   p < fresh s \<and> p \<notin> set (pool s) \<and> parent (batches s p) = None"
  unfolding store_ok_def by blast

lemma walk_root_eq:
  assumes "store_ok s" "m < fresh s"
  shows "walk_root (batches s) m = Some (root_of (batches s) m)"
proof (cases "parent (batches s m)")
  case None
  then show ?thesis by (simp add: walk_root_None root_of_def)
next
  case (Some p)
  from store_ok_parent[OF assms Some] have "parent (batches s p) = None" by simp
  then have "walk_root (batches s) p = Some p" by (rule walk_root_None)
  moreover have "walk_root (batches s) m = walk_root (batches s) p" using Some by (rule walk_root_Some)
  ultimately show ?thesis using Some by (simp add: root_of_def)
qed

lemma root_of_props:
  assumes "store_ok s" "in_use s m"
  shows "in_use s (root_of (batches s) m)" "parent (batches s (root_of (batches s) m)) = None"
proof -
  have m: "m < fresh s" "m \<notin> set (pool s)" using assms by (simp_all add: in_use_def)
  show "in_use s (root_of (batches s) m)"
  proof (cases "parent (batches s m)")
    case None then show ?thesis using assms by (simp add: root_of_def)
  next
    case (Some p)
    from store_ok_parent[OF assms(1) m(1) Some] show ?thesis using Some
      by (simp add: root_of_def in_use_def)
  qed
  show "parent (batches s (root_of (batches s) m)) = None"
  proof (cases "parent (batches s m)")
    case None then show ?thesis by (simp add: root_of_def)
  next
    case (Some p)
    from store_ok_parent[OF assms(1) m(1) Some] show ?thesis using Some
      by (simp add: root_of_def)
  qed
qed

lemma store_ok_pool: "store_ok s \<Longrightarrow> a \<in> set (pool s) \<Longrightarrow> a < fresh s"
  unfolding store_ok_def by blast

lemma store_ok_distinct: "store_ok s \<Longrightarrow> distinct (pool s)"
  unfolding store_ok_def by blast

lemma remove_nth_distinct:
  assumes "distinct xs" "k < length xs"
  shows "xs ! k \<notin> set (take k xs @ drop (Suc k) xs)" "distinct (take k xs @ drop (Suc k) xs)"
    "set (take k xs @ drop (Suc k) xs) \<subseteq> set xs" "xs ! k \<in> set xs"
proof -
  have xs: "xs = take k xs @ xs ! k # drop (Suc k) xs" using assms(2) by (rule id_take_nth_drop)
  have d: "distinct (take k xs @ xs ! k # drop (Suc k) xs)" using assms(1) xs by simp
  from d show "xs ! k \<notin> set (take k xs @ drop (Suc k) xs)" by auto
  from d show "distinct (take k xs @ drop (Suc k) xs)" by auto
  show "set (take k xs @ drop (Suc k) xs) \<subseteq> set xs"
    using set_take_subset[of k xs] set_drop_subset[of "Suc k" xs] by simp
  show "xs ! k \<in> set xs" using assms(2) by simp
qed

lemma NewMsgBatch_cases:
  assumes "distinct (pool s)"
  shows
  "(fst (NewMsgBatch pick s) \<in> set (pool s)
      \<and> fst (NewMsgBatch pick s) \<notin> set (pool (snd (NewMsgBatch pick s)))
      \<and> distinct (pool (snd (NewMsgBatch pick s)))
      \<and> fresh (snd (NewMsgBatch pick s)) = fresh s
      \<and> batches (snd (NewMsgBatch pick s)) = batches s
      \<and> set (pool (snd (NewMsgBatch pick s))) \<subseteq> set (pool s)
      \<and> chans (snd (NewMsgBatch pick s)) = chans s)
   \<or> (fst (NewMsgBatch pick s) = fresh s
      \<and> fresh (snd (NewMsgBatch pick s)) = Suc (fresh s)
      \<and> batches (snd (NewMsgBatch pick s)) = (batches s)(fresh s := pool_New)
      \<and> pool (snd (NewMsgBatch pick s)) = pool s
      \<and> chans (snd (NewMsgBatch pick s)) = chans s)"
proof (cases "\<exists>k. pick = Some k \<and> k < length (pool s)")
  case True
  then obtain k where k: "pick = Some k" "k < length (pool s)" by blast
  note r = remove_nth_distinct[OF assms k(2)]
  show ?thesis using k r by (simp add: NewMsgBatch_def)
next
  case False
  then show ?thesis by (cases pick) (simp_all add: NewMsgBatch_def)
qed

lemma NewMsgBatch_props:
  fixes pick s
  assumes ok: "store_ok s"
  defines "mb \<equiv> fst (NewMsgBatch pick s)" and "s1 \<equiv> snd (NewMsgBatch pick s)"
  shows "mb < fresh s1" "mb \<notin> set (pool s1)" "distinct (pool s1)" "fresh s \<le> fresh s1"
    "set (pool s1) \<subseteq> set (pool s)" "chans s1 = chans s" "\<not> in_use s mb"
    "\<And>a. a \<noteq> mb \<Longrightarrow> batches s1 a = batches s a"
    "\<And>a. a < fresh s1 \<Longrightarrow> a \<noteq> mb \<Longrightarrow> a < fresh s"
proof -
  note c = NewMsgBatch_cases[OF store_ok_distinct[OF ok], of pick, folded mb_def s1_def]
  note d = store_ok_distinct[OF ok]
  show "mb < fresh s1" using c store_ok_pool[OF ok, of mb] by auto
  show "mb \<notin> set (pool s1)" using c store_ok_pool[OF ok, of mb] by auto
  show "distinct (pool s1)" using c d by auto
  show "fresh s \<le> fresh s1" using c by auto
  show "set (pool s1) \<subseteq> set (pool s)" using c by auto
  show "chans s1 = chans s" using c by auto
  show "\<not> in_use s mb" using c by (auto simp: in_use_def)
  show "\<And>a. a \<noteq> mb \<Longrightarrow> batches s1 a = batches s a" using c by auto
  show "\<And>a. a < fresh s1 \<Longrightarrow> a \<noteq> mb \<Longrightarrow> a < fresh s" using c by auto
qed

lemma Fork_ok:
  fixes pick s m
  assumes ok: "store_ok s" and m: "in_use s m"
  shows "\<exists>mb s'. Fork pick s m = Some (mb, s') \<and> store_ok s' \<and> in_use s' mb
      \<and> root_of (batches s') mb = root_of (batches s) m
      \<and> MsgBatch.dc (batches s' mb) = MsgBatch.dc (batches s m) \<and> chans s' = chans s"
proof -
  define mb where "mb = fst (NewMsgBatch pick s)"
  define s1 where "s1 = snd (NewMsgBatch pick s)"
  define r where "r = root_of (batches s) m"
  define h1 where "h1 = (batches s1)(mb := (batches s1 mb)\<lparr> dc := MsgBatch.dc (batches s1 m) \<rparr>)"
  define h2 where "h2 = h1(mb := (h1 mb)\<lparr> parent := Some r \<rparr>)"
  define s' where "s' = s1\<lparr> batches := h2 \<rparr>"
  note p = NewMsgBatch_props[OF ok, where pick=pick, folded mb_def s1_def]
  have mlt: "m < fresh s" and mnp: "m \<notin> set (pool s)" using m by (simp_all add: in_use_def)
  have m_ne: "m \<noteq> mb" using p(7) m by auto
  have r_use: "in_use s r" and r_root: "parent (batches s r) = None"
    using root_of_props[OF ok m] by (simp_all add: r_def)
  have r_ne: "r \<noteq> mb" using p(7) r_use by auto
  have rlt: "r < fresh s" and rnp: "r \<notin> set (pool s)" using r_use by (simp_all add: in_use_def)
  have same: "\<And>a. a \<noteq> mb \<Longrightarrow> h2 a = batches s a" using p(8) by (simp add: h2_def h1_def)
  have h1_same: "\<And>a. a \<noteq> mb \<Longrightarrow> h1 a = batches s a" using p(8) by (simp add: h1_def)
  have h2_mb_parent: "parent (h2 mb) = Some r" by (simp add: h2_def)
  have h2_mb_dc: "MsgBatch.dc (h2 mb) = MsgBatch.dc (batches s m)"
    using p(8)[OF m_ne] by (simp add: h2_def h1_def)
  have wr: "walk_root h1 m = Some r"
  proof (cases "parent (batches s m)")
    case None
    then have "r = m" by (simp add: r_def root_of_def)
    moreover have "parent (h1 m) = None" using None h1_same[OF m_ne] by simp
    ultimately show ?thesis by (simp add: walk_root_None)
  next
    case (Some q)
    then have rq: "r = q" by (simp add: r_def root_of_def)
    have "parent (h1 m) = Some r" using Some rq h1_same[OF m_ne] by simp
    then have "walk_root h1 m = walk_root h1 r" by (rule walk_root_Some)
    moreover have "parent (h1 r) = None" using r_root h1_same[OF r_ne] by simp
    ultimately show ?thesis by (simp add: walk_root_None)
  qed
  have F: "Fork pick s m = Some (mb, s')"
    using wr by (simp add: Fork_def Let_def case_prod_beta mb_def s1_def h1_def h2_def s'_def r_def)
  have fr: "fresh s' = fresh s1" and po: "pool s' = pool s1" and ba: "batches s' = h2"
    and ch: "chans s' = chans s" using p(6) by (simp_all add: s'_def)
  have parents: "p < fresh s' \<and> p \<notin> set (pool s') \<and> parent (batches s' p) = None"
    if a: "a < fresh s'" and ap: "parent (batches s' a) = Some p" for a p
  proof (cases "a = mb")
    case True
    have "p = r" using True h2_mb_parent ba ap by simp
    moreover have "r < fresh s'" using rlt p(4) fr by simp
    moreover have "r \<notin> set (pool s')" using rnp p(5) po by auto
    moreover have "parent (batches s' r) = None" using same[OF r_ne] r_root ba by simp
    ultimately show ?thesis by simp
  next
    case False
    have alt: "a < fresh s" using p(9) a False fr by simp
    have Some: "parent (batches s a) = Some p" using ap same[OF False] ba by simp
    from store_ok_parent[OF ok alt Some]
    have q: "p < fresh s" "p \<notin> set (pool s)" "parent (batches s p) = None" by simp_all
    have q_ne: "p \<noteq> mb" using p(7) q by (auto simp: in_use_def)
    have "p < fresh s'" using q(1) p(4) fr by simp
    moreover have "p \<notin> set (pool s')" using q(2) p(5) po by auto
    moreover have "parent (batches s' p) = None" using same[OF q_ne] q(3) ba by simp
    ultimately show ?thesis by simp
  qed
  have pl: "\<forall>a \<in> set (pool s'). a < fresh s'"
  proof
    fix a assume "a \<in> set (pool s')"
    then have "a \<in> set (pool s)" using p(5) po by auto
    then have "a < fresh s" by (rule store_ok_pool[OF ok])
    then show "a < fresh s'" using p(4) fr by simp
  qed
  have pa: "\<forall>a < fresh s'. \<forall>p. parent (batches s' a) = Some p \<longrightarrow>
          p < fresh s' \<and> p \<notin> set (pool s') \<and> parent (batches s' p) = None"
    using parents by blast
  have di: "distinct (pool s')" using p(3) po by simp
  have ok': "store_ok s'" unfolding store_ok_def using pa pl di by (intro conjI)
  have use': "in_use s' mb" using p(1) p(2) fr po by (simp add: in_use_def)
  have "root_of (batches s') mb = r" using h2_mb_parent ba by (simp add: root_of_def)
  then show ?thesis using F ok' use' h2_mb_dc ba ch by (simp add: r_def)
qed

lemma forked_inv:
  assumes "forked s m s' b" "store_ok s" "in_use s m"
  shows "store_ok s' \<and> in_use s' b \<and> root_of (batches s') b = root_of (batches s) m
      \<and> MsgBatch.dc (batches s' b) = MsgBatch.dc (batches s m) \<and> chans s' = chans s"
  using assms
proof (induction rule: forked.induct)
  case (forked_self s m)
  then show ?case by simp
next
  case (forked_step s m s1 b1 pick b2 s2)
  then have ih: "store_ok s1" "in_use s1 b1" "root_of (batches s1) b1 = root_of (batches s) m"
    "MsgBatch.dc (batches s1 b1) = MsgBatch.dc (batches s m)" "chans s1 = chans s" by simp_all
  from Fork_ok[OF ih(1) ih(2), of pick] obtain mb s'' where
    F: "Fork pick s1 b1 = Some (mb, s'')" and
    P: "store_ok s''" "in_use s'' mb" "root_of (batches s'') mb = root_of (batches s1) b1"
       "MsgBatch.dc (batches s'' mb) = MsgBatch.dc (batches s1 b1)" "chans s'' = chans s1"
    by blast
  have "Some (mb, s'') = Some (b2, s2)" using F forked_step.hyps(2) by (rule trans[OF sym])
  then have "(mb, s'') = (b2, s2)" by (simp only: option.inject)
  then have e: "mb = b2" "s'' = s2" by (simp_all only: prod.inject)
  have "store_ok s2 \<and> in_use s2 b2 \<and> root_of (batches s2) b2 = root_of (batches s1) b1
      \<and> MsgBatch.dc (batches s2 b2) = MsgBatch.dc (batches s1 b1) \<and> chans s2 = chans s1"
    using P unfolding e by (intro conjI)
  then show ?case using ih by simp
qed

text \<open>The objects after the root of \<open>b\<close> was marked done.\<close>

lemma Done_eq:
  assumes "store_ok s" "b < fresh s"
  shows "Done s b = Some (try_send (MsgBatch.dc (batches s b))
           (s\<lparr> batches := (batches s)(root_of (batches s) b :=
                  (batches s (root_of (batches s) b))\<lparr> state := msgBatchStateDone \<rparr>) \<rparr>))"
  using walk_root_eq[OF assms] by (simp add: Done_def)

lemma try_send_fields:
  "batches (try_send ch s) = batches s" "fresh (try_send ch s) = fresh s"
  "pool (try_send ch s) = pool s"
  "chans (try_send ch s) = (case ch of None \<Rightarrow> chans s | Some c \<Rightarrow> (chans s)(c := signal (chans s c)))"
  by (simp_all add: try_send_def split: option.split)

lemma store_ok_cong:
  assumes ok: "store_ok s" and fr: "fresh s' = fresh s" and po: "pool s' = pool s"
    and pa: "\<And>a. parent (batches s' a) = parent (batches s a)"
  shows "store_ok s'"
proof -
  have 1: "\<forall>a < fresh s'. \<forall>p. parent (batches s' a) = Some p \<longrightarrow>
          p < fresh s' \<and> p \<notin> set (pool s') \<and> parent (batches s' p) = None"
  proof (intro allI impI)
    fix a p assume "a < fresh s'" and "parent (batches s' a) = Some p"
    then have "a < fresh s" and "parent (batches s a) = Some p" by (simp_all only: fr pa)
    from store_ok_parent[OF ok this]
    have "p < fresh s \<and> p \<notin> set (pool s) \<and> parent (batches s p) = None" .
    then show "p < fresh s' \<and> p \<notin> set (pool s') \<and> parent (batches s' p) = None"
      unfolding fr po pa .
  qed
  have 2: "\<forall>a \<in> set (pool s'). a < fresh s'"
    using store_ok_pool[OF ok] by (simp only: fr po) blast
  have 3: "distinct (pool s')" using store_ok_distinct[OF ok] by (simp only: po)
  show ?thesis unfolding store_ok_def using 1 2 3 by (intro conjI)
qed

lemma Done_fields:
  assumes ok: "store_ok s" and b: "b < fresh s"
  defines "r \<equiv> root_of (batches s) b"
  shows "\<exists>s1. Done s b = Some s1
      \<and> batches s1 = (batches s)(r := (batches s r)\<lparr> state := msgBatchStateDone \<rparr>)
      \<and> fresh s1 = fresh s \<and> pool s1 = pool s \<and> store_ok s1
      \<and> root_of (batches s1) b = r
      \<and> MsgBatch.dc (batches s1 b) = MsgBatch.dc (batches s b)
      \<and> chans s1 = (case MsgBatch.dc (batches s b) of None \<Rightarrow> chans s
                     | Some c \<Rightarrow> (chans s)(c := signal (chans s c)))"
proof -
  define s1 where "s1 = try_send (MsgBatch.dc (batches s b))
           (s\<lparr> batches := (batches s)(r := (batches s r)\<lparr> state := msgBatchStateDone \<rparr>) \<rparr>)"
  have D: "Done s b = Some s1" using Done_eq[OF ok b] by (simp add: s1_def r_def)
  have ba: "batches s1 = (batches s)(r := (batches s r)\<lparr> state := msgBatchStateDone \<rparr>)"
    and fr: "fresh s1 = fresh s" and po: "pool s1 = pool s"
    and ch: "chans s1 = (case MsgBatch.dc (batches s b) of None \<Rightarrow> chans s
                     | Some c \<Rightarrow> (chans s)(c := signal (chans s c)))"
    by (simp_all add: s1_def try_send_fields split: option.split)
  have par: "\<And>a. parent (batches s1 a) = parent (batches s a)" by (simp add: ba)
  have dcs: "\<And>a. MsgBatch.dc (batches s1 a) = MsgBatch.dc (batches s a)" by (simp add: ba)
  have ok1: "store_ok s1" using ok fr po par by (rule store_ok_cong)
  have "root_of (batches s1) b = r" by (simp add: root_of_def par r_def)
  then show ?thesis using D ba fr po ok1 dcs ch by simp
qed

lemma signal_iter:
  "capacity ((signal ^^ n) c) = capacity c
   \<and> pending ((signal ^^ n) c)
       = (if pending c < capacity c then min (capacity c) (pending c + n) else pending c)"
proof (induction n)
  case 0
  then show ?case by simp
next
  case (Suc n)
  then show ?case by (auto simp: signal_def min_def)
qed

lemma Dones_fields:
  assumes "store_ok s" "b < fresh s"
  shows "\<exists>sn. Dones (Suc n) s b = Some sn
      \<and> batches sn = (batches s)(root_of (batches s) b :=
                         (batches s (root_of (batches s) b))\<lparr> state := msgBatchStateDone \<rparr>)
      \<and> chans sn = (case MsgBatch.dc (batches s b) of None \<Rightarrow> chans s
                     | Some c \<Rightarrow> (chans s)(c := (signal ^^ Suc n) (chans s c)))"
  using assms
proof (induction n arbitrary: s)
  case 0
  from Done_fields[OF 0] obtain s1 where
    D: "Done s b = Some s1" and
    ba: "batches s1 = (batches s)(root_of (batches s) b :=
                         (batches s (root_of (batches s) b))\<lparr> state := msgBatchStateDone \<rparr>)" and
    ch: "chans s1 = (case MsgBatch.dc (batches s b) of None \<Rightarrow> chans s
                     | Some c \<Rightarrow> (chans s)(c := signal (chans s c)))"
    by blast
  have e: "\<And>x. (signal ^^ Suc 0) x = signal x" by simp
  have d: "Dones (Suc 0) s b = Some s1" using D by simp
  show ?case unfolding e using d ba ch by blast
next
  case (Suc n)
  define r where "r = root_of (batches s) b"
  from Done_fields[OF Suc.prems, folded r_def] obtain s1 where
    D: "Done s b = Some s1"
    and ba: "batches s1 = (batches s)(r := (batches s r)\<lparr> state := msgBatchStateDone \<rparr>)"
    and fr: "fresh s1 = fresh s" and ok1: "store_ok s1"
    and ro: "root_of (batches s1) b = r"
    and dc1: "MsgBatch.dc (batches s1 b) = MsgBatch.dc (batches s b)"
    and ch: "chans s1 = (case MsgBatch.dc (batches s b) of None \<Rightarrow> chans s
                     | Some c \<Rightarrow> (chans s)(c := signal (chans s c)))"
    by blast
  have b1: "b < fresh s1" using Suc.prems(2) fr by simp
  from Suc.IH[OF ok1 b1] obtain sn where
    Dn: "Dones (Suc n) s1 b = Some sn"
    and ban: "batches sn = (batches s1)(root_of (batches s1) b :=
                         (batches s1 (root_of (batches s1) b))\<lparr> state := msgBatchStateDone \<rparr>)"
    and chn: "chans sn = (case MsgBatch.dc (batches s1 b) of None \<Rightarrow> chans s1
                     | Some c \<Rightarrow> (chans s1)(c := (signal ^^ Suc n) (chans s1 c)))"
    by blast
  have 1: "Dones (Suc (Suc n)) s b = Some sn" using D Dn by simp
  have 2: "batches sn = (batches s)(r := (batches s r)\<lparr> state := msgBatchStateDone \<rparr>)"
  proof -
    have "batches sn = (batches s1)(r := (batches s1 r)\<lparr> state := msgBatchStateDone \<rparr>)"
      using ban unfolding ro .
    then show ?thesis unfolding ba by simp
  qed
  have 3: "chans sn = (case MsgBatch.dc (batches s b) of None \<Rightarrow> chans s
                     | Some c \<Rightarrow> (chans s)(c := (signal ^^ Suc (Suc n)) (chans s c)))"
  proof (cases "MsgBatch.dc (batches s b)")
    case None
    then show ?thesis using chn ch dc1 by simp
  next
    case (Some c)
    have "(signal ^^ Suc n) (signal (chans s c)) = (signal ^^ Suc (Suc n)) (chans s c)"
      by (simp add: funpow_swap1)
    then show ?thesis using chn ch dc1 Some by simp
  qed
  show ?case using 1 2 3 unfolding r_def by blast
qed

text \<open>
  C2: in a store the program can build, let \<open>b\<close> come from a batch \<open>m\<close> in use by any
  chain of \<^verbatim>\<open>Fork\<close> calls (\<open>b\<close> may be \<open>m\<close>). Then the parent walk from \<open>b\<close> ends at
  the root of \<open>m\<close>, \<open>b\<close> shares the done-channel of \<open>m\<close>, and \<^verbatim>\<open>b.Done()\<close> returns
  with the root's state done and every other batch as it was. Called any number of
  times, \<^verbatim>\<open>Done\<close> returns each time and the batches are those after the first call (the
  root's state changes at most once); the signals queued in the done-channel never pass
  its capacity, each call adding one while there is room and being dropped otherwise,
  so a channel of depth 1 holds exactly one signal after every call.
\<close>

theorem Done_marks_root_once:
  assumes ok: "store_ok s" and m: "in_use s m" and f: "forked s m s' b"
  shows "\<exists>r s1. walk_root (batches s) m = Some r \<and> walk_root (batches s') b = Some r
      \<and> MsgBatch.dc (batches s' b) = MsgBatch.dc (batches s m)
      \<and> Done s' b = Some s1 \<and> IsDone (batches s1 r)
      \<and> (\<forall>a. a \<noteq> r \<longrightarrow> batches s1 a = batches s' a)
      \<and> (\<forall>n. \<exists>sn. Dones (Suc n) s' b = Some sn \<and> batches sn = batches s1
            \<and> (\<forall>c. MsgBatch.dc (batches s' b) = Some c \<longrightarrow>
                  capacity (chans sn c) = capacity (chans s' c)
                \<and> pending (chans sn c)
                    = (if pending (chans s' c) < capacity (chans s' c)
                       then min (capacity (chans s' c)) (pending (chans s' c) + Suc n)
                       else pending (chans s' c))
                \<and> (capacity (chans s' c) = 1 \<and> pending (chans s' c) \<le> 1
                     \<longrightarrow> pending (chans sn c) = 1)))"
proof -
  define r where "r = root_of (batches s) m"
  from forked_inv[OF f ok m] have ok': "store_ok s'" and use': "in_use s' b"
    and ro: "root_of (batches s') b = r"
    and dcs: "MsgBatch.dc (batches s' b) = MsgBatch.dc (batches s m)"
    by (simp_all add: r_def)
  have mlt: "m < fresh s" using m by (simp add: in_use_def)
  have blt: "b < fresh s'" using use' by (simp add: in_use_def)
  have w1: "walk_root (batches s) m = Some r" using walk_root_eq[OF ok mlt] by (simp add: r_def)
  have w2: "walk_root (batches s') b = Some r" using walk_root_eq[OF ok' blt] ro by simp
  from Done_fields[OF ok' blt] obtain s1 where
    D: "Done s' b = Some s1"
    and ba: "batches s1 = (batches s')(r := (batches s' r)\<lparr> state := msgBatchStateDone \<rparr>)"
    unfolding ro by blast
  have isd: "IsDone (batches s1 r)" by (simp add: ba IsDone_def)
  have oth: "\<forall>a. a \<noteq> r \<longrightarrow> batches s1 a = batches s' a" by (simp add: ba)
  have rep: "\<exists>sn. Dones (Suc n) s' b = Some sn \<and> batches sn = batches s1
            \<and> (\<forall>c. MsgBatch.dc (batches s' b) = Some c \<longrightarrow>
                  capacity (chans sn c) = capacity (chans s' c)
                \<and> pending (chans sn c)
                    = (if pending (chans s' c) < capacity (chans s' c)
                       then min (capacity (chans s' c)) (pending (chans s' c) + Suc n)
                       else pending (chans s' c))
                \<and> (capacity (chans s' c) = 1 \<and> pending (chans s' c) \<le> 1
                     \<longrightarrow> pending (chans sn c) = 1))" for n
  proof -
    from Dones_fields[OF ok' blt, of n] obtain sn where
      Dn: "Dones (Suc n) s' b = Some sn"
      and ban: "batches sn = (batches s')(r := (batches s' r)\<lparr> state := msgBatchStateDone \<rparr>)"
      and chn: "chans sn = (case MsgBatch.dc (batches s' b) of None \<Rightarrow> chans s'
                     | Some c \<Rightarrow> (chans s')(c := (signal ^^ Suc n) (chans s' c)))"
      unfolding ro by blast
    have "capacity (chans sn c) = capacity (chans s' c)
                \<and> pending (chans sn c)
                    = (if pending (chans s' c) < capacity (chans s' c)
                       then min (capacity (chans s' c)) (pending (chans s' c) + Suc n)
                       else pending (chans s' c))
                \<and> (capacity (chans s' c) = 1 \<and> pending (chans s' c) \<le> 1
                     \<longrightarrow> pending (chans sn c) = 1)"
      if c: "MsgBatch.dc (batches s' b) = Some c" for c
    proof -
      have e: "chans sn c = (signal ^^ Suc n) (chans s' c)" using chn c by simp
      note si = signal_iter[of "Suc n" "chans s' c"]
      have 1: "capacity (chans sn c) = capacity (chans s' c)" using si e by simp
      have 2: "pending (chans sn c)
                    = (if pending (chans s' c) < capacity (chans s' c)
                       then min (capacity (chans s' c)) (pending (chans s' c) + Suc n)
                       else pending (chans s' c))" using si e by simp
      have 3: "capacity (chans s' c) = 1 \<and> pending (chans s' c) \<le> 1
                     \<longrightarrow> pending (chans sn c) = 1"
        unfolding 2 by (auto simp: min_def)
      show ?thesis using 1 2 3 by (intro conjI)
    qed
    then show ?thesis using Dn ban ba by auto
  qed
  show ?thesis using w1 w2 dcs D isd oth rep by blast
qed

theorem Done_marks_root_once_witness:
  "store_ok example_store \<and> in_use example_store 0
   \<and> (\<exists>s1 s2 s3 s4. Fork None example_store 0 = Some (1, s1) \<and> Fork None s1 1 = Some (2, s2)
         \<and> Done s2 2 = Some s3 \<and> IsDone (batches s3 0) \<and> Dones 3 s2 2 = Some s4
         \<and> batches s4 = batches s3 \<and> pending (chans s4 0) = 1)"
proof -
  have ok: "store_ok example_store"
    by (simp add: store_ok_def example_store_def pool_New_def)
  have use: "in_use example_store 0" by (simp add: in_use_def example_store_def)
  from Fork_ok[OF ok use, of None] obtain b1 s1 where
    F1: "Fork None example_store 0 = Some (b1, s1)" and ok1: "store_ok s1" and use1: "in_use s1 b1"
    by blast
  have "fst (the (Fork None example_store 0)) = 1"
    by (simp add: Fork_def NewMsgBatch_def example_store_def pool_New_def walk_root_None)
  then have b1: "b1 = 1" using F1 by simp
  have fr1: "fresh s1 = 2"
    using F1 by (auto simp add: Fork_def NewMsgBatch_def example_store_def pool_New_def walk_root_None)
  from Fork_ok[OF ok1 use1, of None] obtain b2 s2 where
    F2: "Fork None s1 b1 = Some (b2, s2)" by blast
  have "b2 = fst (NewMsgBatch None s1)" using F2 
    by (auto simp: Fork_def Let_def case_prod_beta split: option.splits)
  then have b2: "b2 = 2" using fr1 by (simp add: NewMsgBatch_def)
  have ch: "forked example_store 0 s2 b2"
    by (rule forked_step[OF forked_step[OF forked_self F1] F2])
  have chs: "chans s2 = chans example_store" using forked_inv[OF ch ok use] by simp
  from Done_marks_root_once[OF ok use ch] obtain r s3 where
    r: "walk_root (batches example_store) 0 = Some r"
    and dcs: "MsgBatch.dc (batches s2 b2) = MsgBatch.dc (batches example_store 0)"
    and D: "Done s2 b2 = Some s3" and isd: "IsDone (batches s3 r)"
    and rep: "\<forall>n. \<exists>sn. Dones (Suc n) s2 b2 = Some sn \<and> batches sn = batches s3
            \<and> (\<forall>c. MsgBatch.dc (batches s2 b2) = Some c \<longrightarrow>
                  capacity (chans sn c) = capacity (chans s2 c)
                \<and> pending (chans sn c)
                    = (if pending (chans s2 c) < capacity (chans s2 c)
                       then min (capacity (chans s2 c)) (pending (chans s2 c) + Suc n)
                       else pending (chans s2 c))
                \<and> (capacity (chans s2 c) = 1 \<and> pending (chans s2 c) \<le> 1
                     \<longrightarrow> pending (chans sn c) = 1))"
    by blast
  have "walk_root (batches example_store) 0 = Some 0"
    by (rule walk_root_None) (simp add: example_store_def pool_New_def)
  then have r0: "r = 0" using r by simp
  have dc0: "MsgBatch.dc (batches s2 b2) = Some 0" using dcs by (simp add: example_store_def)
  from rep obtain s4 where D3: "Dones (Suc 2) s2 b2 = Some s4" and b4: "batches s4 = batches s3"
    and c4: "\<forall>c. MsgBatch.dc (batches s2 b2) = Some c \<longrightarrow>
                (capacity (chans s2 c) = 1 \<and> pending (chans s2 c) \<le> 1
                     \<longrightarrow> pending (chans s4 c) = 1)" by blast
  have "pending (chans s4 0) = 1" using c4 dc0 chs by (simp add: example_store_def)
  moreover have "Dones 3 s2 b2 = Some s4" using D3 by (simp add: eval_nat_numeral)
  ultimately show ?thesis using ok use F1 F2 D isd b4 unfolding b1 b2 r0 by blast
qed

section \<open>Properties of MsgBatchAllocator.Wait\<close>

lemma Wait_for_rounds: "Wait_for m i bound sched = rounds m (bound - i) sched"
proof (induction m i bound sched rule: Wait_for.induct)
  case (1 m i bound sched)
  show ?case
  proof (cases "i < bound")
    case False
    then show ?thesis by (subst Wait_for.simps) simp
  next
    case True
    then obtain k where k: "bound - i = Suc k" "bound - (i + 1) = k"
      by (metis Suc_diff_Suc Suc_eq_plus1 diff_diff_left)
    show ?thesis
    proof (cases sched)
      case Nil
      then show ?thesis using True k by (subst Wait_for.simps) simp
    next
      case (Cons h rest)
      show ?thesis
      proof (cases "checkAllDone m h")
        case d: True
        then show ?thesis using True k Cons by (subst Wait_for.simps) simp
      next
        case d: False
        from "1.IH"[OF True Cons d] have "Wait_for m (i + 1) bound rest = rounds m k rest"
          using k by simp
        then show ?thesis using True k Cons d by (subst Wait_for.simps) simp
      qed
    qed
  qed
qed

lemma rounds_done:
  "j < length sched \<Longrightarrow> j < k \<Longrightarrow> \<forall>i<j. \<not> checkAllDone m (sched ! i) \<Longrightarrow>
   checkAllDone m (sched ! j) \<Longrightarrow> rounds m k sched = (None, drop (Suc j) sched)"
proof (induction j arbitrary: k sched)
  case 0
  then obtain h rest k' where "sched = h # rest" "k = Suc k'"
    by (cases sched; cases k) auto
  then show ?case using 0 by simp
next
  case (Suc j)
  then obtain h rest k' where s: "sched = h # rest" "k = Suc k'"
    by (cases sched; cases k) auto
  have nd: "\<not> checkAllDone m h" using Suc.prems(3) s by auto
  have "\<forall>i<j. \<not> checkAllDone m (rest ! i)" using Suc.prems(3) s by auto
  then have "rounds m k' rest = (None, drop (Suc j) rest)"
    using Suc.IH[of rest k'] Suc.prems s by simp
  then show ?case using s nd by simp
qed

lemma rounds_timeout:
  "length sched < k \<Longrightarrow> \<forall>h \<in> set sched. \<not> checkAllDone m h \<Longrightarrow>
   rounds m k sched = (Some ErrTimeout, [])"
proof (induction sched arbitrary: k)
  case Nil
  then show ?case by (cases k) simp_all
next
  case (Cons h rest)
  then show ?case by (cases k) simp_all
qed

lemma rounds_maxretry:
  "fst (rounds m k sched) = Some ErrMaxRetryReached \<longleftrightarrow>
     k \<le> length sched \<and> (\<forall>h \<in> set (take k sched). \<not> checkAllDone m h)"
proof (induction k arbitrary: sched)
  case 0
  then show ?case by simp
next
  case (Suc k)
  show ?case
  proof (cases sched)
    case Nil
    then show ?thesis by simp
  next
    case (Cons h rest)
    then show ?thesis using Suc[of rest] by simp
  qed
qed

lemma rounds_maxretry_rest:
  "fst (rounds m k sched) = Some ErrMaxRetryReached \<Longrightarrow> snd (rounds m k sched) = drop k sched"
proof (induction k arbitrary: sched)
  case 0
  then show ?case by simp
next
  case (Suc k)
  then show ?case by (cases sched) (simp_all split: if_splits)
qed

lemma Wait_rounds:
  "mbMap m \<noteq> [] \<Longrightarrow> MsgBatchAllocator.dc m \<noteq> None \<Longrightarrow>
   Wait m sched = rounds m (length (mbMap m) + maxRetryTimes) sched"
  by (cases "rounds m (length (mbMap m) + maxRetryTimes) sched")
     (auto simp: Wait_def signals_def Wait_for_rounds)

lemma example_checks:
  "\<not> checkAllDone example_alloc example_pending" "checkAllDone example_alloc example_done"
  by (simp_all add: checkAllDone_def example_alloc_def example_pending_def example_done_def
      Count_def IsDone_def pool_New_def msgBatchStateDone_def msgBatchStateNotReady_def)

text \<open>
  C3, as the code has it: let the allocator have at least one node batch and a done-channel,
  and \<open>n = len(mbMap) + maxRetryTimes\<close>. \<^verbatim>\<open>Wait\<close> returns nil at the first signal, among
  the first \<open>n\<close>, that finds every non-empty batch done, having received no signal
  after it; it returns \<^verbatim>\<open>ErrTimeout\<close> when fewer than \<open>n\<close> signals arrive before the
  timer and none finds the batches done; and it returns \<^verbatim>\<open>ErrMaxRetryReached\<close> exactly
  when the first \<open>n\<close> signals all find some batch not done: it is returned at the
  \<open>n\<close>-th such signal, no further signal is awaited.
\<close>

theorem Wait_outcomes:
  assumes "mbMap m \<noteq> []" "MsgBatchAllocator.dc m \<noteq> None"
  shows
   "(\<forall>j. j < length sched \<and> j < length (mbMap m) + maxRetryTimes
          \<and> (\<forall>i<j. \<not> checkAllDone m (sched ! i)) \<and> checkAllDone m (sched ! j)
        \<longrightarrow> Wait m sched = (None, drop (Suc j) sched))
    \<and> (length sched < length (mbMap m) + maxRetryTimes \<and> (\<forall>h \<in> set sched. \<not> checkAllDone m h)
        \<longrightarrow> Wait m sched = (Some ErrTimeout, []))
    \<and> (fst (Wait m sched) = Some ErrMaxRetryReached
        \<longleftrightarrow> length (mbMap m) + maxRetryTimes \<le> length sched
            \<and> (\<forall>h \<in> set (take (length (mbMap m) + maxRetryTimes) sched). \<not> checkAllDone m h))
    \<and> (fst (Wait m sched) = Some ErrMaxRetryReached
        \<longrightarrow> snd (Wait m sched) = drop (length (mbMap m) + maxRetryTimes) sched)"
  unfolding Wait_rounds[OF assms]
  using rounds_done[of _ sched "length (mbMap m) + maxRetryTimes" m]
    rounds_timeout[of sched "length (mbMap m) + maxRetryTimes" m]
    rounds_maxretry[of m "length (mbMap m) + maxRetryTimes" sched]
    rounds_maxretry_rest[of m "length (mbMap m) + maxRetryTimes" sched]
  by blast

theorem Wait_outcomes_witness:
  "mbMap example_alloc \<noteq> [] \<and> MsgBatchAllocator.dc example_alloc \<noteq> None
   \<and> Wait example_alloc [example_pending, example_done, example_pending] = (None, [example_pending])
   \<and> Wait example_alloc [example_pending] = (Some ErrTimeout, [])
   \<and> fst (Wait example_alloc (replicate 9 example_pending)) = Some ErrMaxRetryReached
   \<and> snd (Wait example_alloc (replicate 9 example_pending)) = []"
proof -
  have a: "mbMap example_alloc \<noteq> []" "MsgBatchAllocator.dc example_alloc \<noteq> None"
    by (simp_all add: example_alloc_def)
  have n: "length (mbMap example_alloc) + maxRetryTimes = 9"
    by (simp add: example_alloc_def maxRetryTimes_def)
  note w = Wait_outcomes[OF a, unfolded n]
  have 1: "Wait example_alloc [example_pending, example_done, example_pending] = (None, [example_pending])"
    using w[of "[example_pending, example_done, example_pending]", THEN conjunct1, rule_format, of 1]
      example_checks by simp
  have 2: "Wait example_alloc [example_pending] = (Some ErrTimeout, [])"
    using w[of "[example_pending]", THEN conjunct2, THEN conjunct1] example_checks by simp
  have 3: "fst (Wait example_alloc (replicate 9 example_pending)) = Some ErrMaxRetryReached"
    using w[of "replicate 9 example_pending", THEN conjunct2, THEN conjunct2, THEN conjunct1]
      example_checks by simp
  have 4: "snd (Wait example_alloc (replicate 9 example_pending)) = []"
    using w[of "replicate 9 example_pending", THEN conjunct2, THEN conjunct2, THEN conjunct2] 3
    by simp
  show ?thesis using a 1 2 3 4 by (intro conjI)
qed

text \<open>
  The claim asks for more than \<open>n\<close> wakeups before \<^verbatim>\<open>ErrMaxRetryReached\<close>. With one
  node batch (\<open>n = 9\<close>) and nine signals that find it not done, \<^verbatim>\<open>Wait\<close> returns
  \<^verbatim>\<open>ErrMaxRetryReached\<close> after exactly nine wakeups.
\<close>

theorem Wait_maxretry_at_bound:
  "fst (Wait example_alloc (replicate 9 example_pending)) = Some ErrMaxRetryReached
   \<and> length (replicate 9 example_pending)
       - length (snd (Wait example_alloc (replicate 9 example_pending))) = 9
   \<and> \<not> (length (mbMap example_alloc) + maxRetryTimes
          < length (replicate 9 example_pending)
            - length (snd (Wait example_alloc (replicate 9 example_pending))))"
proof -
  have a: "mbMap example_alloc \<noteq> []" "MsgBatchAllocator.dc example_alloc \<noteq> None"
    by (simp_all add: example_alloc_def)
  have n: "length (mbMap example_alloc) + maxRetryTimes = 9"
    by (simp add: example_alloc_def maxRetryTimes_def)
  have "rounds example_alloc 9 (replicate 9 example_pending) = (Some ErrMaxRetryReached, [])"
    using example_checks by (simp add: eval_nat_numeral)
  then have "Wait example_alloc (replicate 9 example_pending) = (Some ErrMaxRetryReached, [])"
    using Wait_rounds[OF a, of "replicate 9 example_pending"] n by simp
  then show ?thesis using n by simp
qed

text \<open>
  C8: with no node batch, \<^verbatim>\<open>Wait\<close> returns nil at the first signal it receives and
  \<^verbatim>\<open>ErrTimeout\<close> when the timer comes first (always so on a nil channel); it receives
  at most one signal.
\<close>

theorem Wait_no_batches:
  assumes "mbMap m = []"
  shows "Wait m sched
           = (if MsgBatchAllocator.dc m = None \<or> sched = [] then (Some ErrTimeout, sched)
              else (None, tl sched))
         \<and> length sched - length (snd (Wait m sched)) \<le> 1"
proof -
  have c: "checkAllDone m h" for h by (simp add: checkAllDone_def assms)
  have "Wait m sched
           = (if MsgBatchAllocator.dc m = None \<or> sched = [] then (Some ErrTimeout, sched)
              else (None, tl sched))"
    using assms c by (cases sched) (simp_all add: Wait_def signals_def)
  then show ?thesis by (cases sched) auto
qed

theorem Wait_no_batches_witness:
  "mbMap example_no_batches = []
   \<and> Wait example_no_batches [example_pending, example_pending] = (None, [example_pending])
   \<and> Wait example_no_batches [] = (Some ErrTimeout, [])"
proof -
  have a: "mbMap example_no_batches = []" by (simp add: example_no_batches_def)
  have d: "MsgBatchAllocator.dc example_no_batches \<noteq> None" by (simp add: example_no_batches_def)
  show ?thesis
    using a d Wait_no_batches[OF a, of "[example_pending, example_pending]"]
      Wait_no_batches[OF a, of "[]"] by simp
qed

section \<open>Properties of IsSupport\<close>

lemma HasPrefix_append: "HasPrefix (d @ b) d"
  by (induction d) simp_all

lemma Contains_prefix: "HasPrefix b sub \<Longrightarrow> Contains b sub"
  by (cases b) simp_all

lemma Contains_append_left: "Contains b sub \<Longrightarrow> Contains (a @ b) sub"
  by (induction a) simp_all

lemma Contains_entry: "d \<in> set xs \<Longrightarrow> Contains (concat xs) d"
proof (induction xs)
  case Nil
  then show ?case by simp
next
  case (Cons x xs)
  show ?case
  proof (cases "d = x")
    case True
    then show ?thesis by (simp add: Contains_prefix HasPrefix_append)
  next
    case False
    then have "Contains (concat xs) d" using Cons by simp
    then show ?thesis by (simp add: Contains_append_left)
  qed
qed

lemma blacklist_read_1:
  "list_all (\<lambda>d. \<not> Contains reqReadCmdsBytes d) (take 15 reqNotSupportCmds)"
  by code_simp

lemma blacklist_read_2:
  "list_all (\<lambda>d. \<not> Contains reqReadCmdsBytes d) (drop 15 reqNotSupportCmds)"
  by code_simp

lemma blacklist_write_1:
  "list_all (\<lambda>d. \<not> Contains reqWriteCmdsBytes d) (take 15 reqNotSupportCmds)"
  by code_simp

lemma blacklist_write_2:
  "list_all (\<lambda>d. \<not> Contains reqWriteCmdsBytes d) (drop 15 reqNotSupportCmds)"
  by code_simp

lemma blacklist_ctl:
  "list_all (\<lambda>d. \<not> Contains reqCtlCmdsBytes d) reqNotSupportCmds"
  by code_simp

lemma blacklist_not_contained:
  assumes "d \<in> set reqNotSupportCmds"
  shows "\<not> Contains reqReadCmdsBytes d" "\<not> Contains reqWriteCmdsBytes d"
    "\<not> Contains reqCtlCmdsBytes d"
proof -
  have s: "set reqNotSupportCmds = set (take 15 reqNotSupportCmds) \<union> set (drop 15 reqNotSupportCmds)"
    by (metis append_take_drop_id set_append)
  show "\<not> Contains reqReadCmdsBytes d"
    using assms s blacklist_read_1 blacklist_read_2 by (auto simp: list_all_iff)
  show "\<not> Contains reqWriteCmdsBytes d"
    using assms s blacklist_write_1 blacklist_write_2 by (auto simp: list_all_iff)
  show "\<not> Contains reqCtlCmdsBytes d"
    using assms blacklist_ctl by (auto simp: list_all_iff)
qed

text \<open>
  C7, as the code has it: for a request with at least one element whose first element
  carries the data \<open>d\<close>: when \<open>d\<close> is an entry of the table of unsupported commands
  (among them the STORE variants \<^verbatim>\<open>SDIFFSTORE\<close>, \<^verbatim>\<open>SINTERSTORE\<close>, \<^verbatim>\<open>SUNIONSTORE\<close> and
  \<^verbatim>\<open>ZUNIONSTORE\<close>), \<^verbatim>\<open>IsSupport\<close> is false; when \<open>d\<close> is an entry of the read, write or
  control table (among them \<^verbatim>\<open>ZINTERSTORE\<close>, an entry of the write table), it is true.
\<close>

theorem IsSupport_tables:
  assumes "1 \<le> resp.arrayn (Request.resp r)" "resp.array (Request.resp r) = c # args"
  shows "(resp.data c \<in> set reqNotSupportCmds \<longrightarrow> IsSupport r = Inr False)
       \<and> (resp.data c \<in> set reqReadCmds \<union> set reqWriteCmds \<union> set reqCtlCmds
            \<longrightarrow> IsSupport r = Inr True)"
proof -
  have e: "IsSupport r = Inr (Contains reqReadCmdsBytes (resp.data c)
                    \<or> Contains reqWriteCmdsBytes (resp.data c)
                    \<or> Contains reqCtlCmdsBytes (resp.data c))"
    using assms by (simp add: IsSupport_def)
  have 1: "resp.data c \<in> set reqNotSupportCmds \<longrightarrow> IsSupport r = Inr False"
    using blacklist_not_contained[of "resp.data c"] e by simp
  have 2: "resp.data c \<in> set reqReadCmds \<union> set reqWriteCmds \<union> set reqCtlCmds
            \<longrightarrow> IsSupport r = Inr True"
    using Contains_entry[of "resp.data c" reqReadCmds] Contains_entry[of "resp.data c" reqWriteCmds]
      Contains_entry[of "resp.data c" reqCtlCmds] e
    by (auto simp: reqReadCmdsBytes_def reqWriteCmdsBytes_def reqCtlCmdsBytes_def)
  show ?thesis using 1 2 by (intro conjI)
qed

theorem IsSupport_tables_witness:
  "IsSupport (example_request (''4'' @ crlfBytes @ ''KEYS'')) = Inr False
   \<and> IsSupport (example_request (''11'' @ crlfBytes @ ''SINTERSTORE'')) = Inr False
   \<and> IsSupport (example_request (''6'' @ crlfBytes @ ''SELECT'')) = Inr False
   \<and> IsSupport (example_request (''3'' @ crlfBytes @ ''GET'')) = Inr True
   \<and> IsSupport (example_request (''4'' @ crlfBytes @ ''MSET'')) = Inr True
   \<and> IsSupport (example_request (''4'' @ crlfBytes @ ''PING'')) = Inr True"
proof -
  have a: "1 \<le> resp.arrayn (Request.resp (example_request cmd))"
    "resp.array (Request.resp (example_request cmd)) = Resp 0x24 cmd [] 0 # [Resp 0x24 (''1'' @ crlfBytes @ ''a'') [] 0]"
    for cmd by (simp_all add: example_request_def)
  note t = IsSupport_tables[OF a, simplified resp.sel]
  have 1: "IsSupport (example_request (''4'' @ crlfBytes @ ''KEYS'')) = Inr False"
    using t[of "''4'' @ crlfBytes @ ''KEYS''"] by (simp add: reqNotSupportCmds_def)
  have 2: "IsSupport (example_request (''11'' @ crlfBytes @ ''SINTERSTORE'')) = Inr False"
    using t[of "''11'' @ crlfBytes @ ''SINTERSTORE''"] by (simp add: reqNotSupportCmds_def)
  have 3: "IsSupport (example_request (''6'' @ crlfBytes @ ''SELECT'')) = Inr False"
    using t[of "''6'' @ crlfBytes @ ''SELECT''"] by (simp add: reqNotSupportCmds_def)
  have 4: "IsSupport (example_request (''3'' @ crlfBytes @ ''GET'')) = Inr True"
    using t[of "''3'' @ crlfBytes @ ''GET''"] by (simp add: reqReadCmds_def)
  have 5: "IsSupport (example_request (''4'' @ crlfBytes @ ''MSET'')) = Inr True"
    using t[of "''4'' @ crlfBytes @ ''MSET''"] by (simp add: reqWriteCmds_def)
  have 6: "IsSupport (example_request (''4'' @ crlfBytes @ ''PING'')) = Inr True"
    using t[of "''4'' @ crlfBytes @ ''PING''"] by (simp add: reqCtlCmds_def)
  show ?thesis using 1 2 3 4 5 6 by (intro conjI)
qed

text \<open>
  The claim counts the cross-shard STORE variants among the commands \<^verbatim>\<open>IsSupport\<close>
  rejects. \<^verbatim>\<open>ZINTERSTORE\<close> is one of them, but it is an entry of the write table and not
  of the table of unsupported commands (where \<^verbatim>\<open>ZUNIONSTORE\<close> is): \<^verbatim>\<open>IsSupport\<close> is
  true for it.
\<close>

theorem IsSupport_ZINTERSTORE:
  "IsSupport (example_request (''11'' @ crlfBytes @ ''ZINTERSTORE'')) = Inr True
   \<and> ''11'' @ crlfBytes @ ''ZINTERSTORE'' \<notin> set reqNotSupportCmds
   \<and> ''11'' @ crlfBytes @ ''ZUNIONSTORE'' \<in> set reqNotSupportCmds"
proof -
  have "''11'' @ crlfBytes @ ''ZINTERSTORE'' \<in> set reqWriteCmds"
    by (simp add: reqWriteCmds_def)
  then have "Contains reqWriteCmdsBytes (''11'' @ crlfBytes @ ''ZINTERSTORE'')"
    unfolding reqWriteCmdsBytes_def by (rule Contains_entry)
  then have 1: "IsSupport (example_request (''11'' @ crlfBytes @ ''ZINTERSTORE'')) = Inr True"
    by (simp add: IsSupport_def example_request_def)
  have 2: "''11'' @ crlfBytes @ ''ZINTERSTORE'' \<notin> set reqNotSupportCmds"
    by (simp add: reqNotSupportCmds_def crlfBytes_def)
  have 3: "''11'' @ crlfBytes @ ''ZUNIONSTORE'' \<in> set reqNotSupportCmds"
    by (simp add: reqNotSupportCmds_def)
  show ?thesis using 1 2 3 by (intro conjI)
qed

section \<open>Properties of the memcache handler\<close>

subsection \<open>Reading and assembling a reply\<close>

lemma bufio_ReadBytes_Inr:
  assumes "bufio_ReadBytes c d = Inr (bs, c')"
  shows "wire_in c = bs @ wire_in c'" "bs \<noteq> []" "last bs = d"
    "events c' = events c @ [Read bs]" "wire_out c' = wire_out c"
    "write_err c' = write_err c" "conn_closed c' = conn_closed c"
proof -
  have m: "d \<in> set (wire_in c)" using assms by (auto simp: bufio_ReadBytes_def split: if_splits)
  have bs: "bs = takeWhile (\<lambda>x. x \<noteq> d) (wire_in c) @ [d]"
    and c': "c' = c\<lparr> wire_in := drop (length bs) (wire_in c), events := events c @ [Read bs] \<rparr>"
    using assms m by (auto simp: bufio_ReadBytes_def Let_def)
  have "wire_in c = takeWhile (\<lambda>x. x \<noteq> d) (wire_in c) @ dropWhile (\<lambda>x. x \<noteq> d) (wire_in c)"
    by simp
  moreover have "dropWhile (\<lambda>x. x \<noteq> d) (wire_in c) \<noteq> []" using m by (simp add: dropWhile_eq_Nil_conv)
  moreover have "hd (dropWhile (\<lambda>x. x \<noteq> d) (wire_in c)) = d"
    using m hd_dropWhile[of "\<lambda>x. x \<noteq> d" "wire_in c"] by (auto simp: dropWhile_eq_Nil_conv)
  ultimately obtain r where r: "wire_in c = bs @ r"
    unfolding bs by (metis append.assoc append_Cons append_Nil list.collapse)
  show "wire_in c = bs @ wire_in c'" using r by (simp add: c')
  show "bs \<noteq> []" "last bs = d" by (simp_all add: bs)
  show "events c' = events c @ [Read bs]" "wire_out c' = wire_out c"
    "write_err c' = write_err c" "conn_closed c' = conn_closed c" by (simp_all add: c')
qed

lemma bufio_ReadBytes_Inl: "bufio_ReadBytes c d = Inl e \<Longrightarrow> e = ErrIO"
  by (auto simp: bufio_ReadBytes_def Let_def split: if_splits)

lemma bufio_ReadFull_Inr:
  assumes "bufio_ReadFull c n = Inr (bs, c')"
  shows "wire_in c = bs @ wire_in c'" "int (length bs) = n"
    "events c' = events c @ [Read bs]" "wire_out c' = wire_out c"
    "write_err c' = write_err c" "conn_closed c' = conn_closed c"
  using assms by (auto simp: bufio_ReadFull_def split: if_splits)

lemma copy_at_fits:
  "off + length src \<le> length tmp \<Longrightarrow>
   copy_at tmp off src = take off tmp @ src @ drop (off + length src) tmp"
  by (simp add: copy_at_def)

lemma copy_all_fits:
  "off + length (concat bs) \<le> length tmp \<Longrightarrow>
   copy_all tmp off bs
     = (take off tmp @ concat bs @ drop (off + length (concat bs)) tmp, off + length (concat bs))"
proof (induction bs arbitrary: tmp off)
  case Nil
  then show ?case by simp
next
  case (Cons b bs)
  define A where "A = take off tmp"
  define C where "C = drop (off + length b) tmp"
  define k where "k = length (concat bs)"
  have f: "off + length b \<le> length tmp" using Cons.prems by simp
  have lA: "length A = off" using f by (simp add: A_def)
  have c: "copy_at tmp off b = (A @ b) @ C" using f by (simp add: copy_at_fits A_def C_def)
  have l: "length (copy_at tmp off b) = length tmp" using f by (simp add: copy_at_fits)
  have "(off + length b) + length (concat bs) \<le> length (copy_at tmp off b)"
    using Cons.prems l by simp
  from Cons.IH[OF this]
  have ih: "copy_all (copy_at tmp off b) (off + length b) bs
     = (take (off + length b) ((A @ b) @ C) @ concat bs
         @ drop (off + length b + k) ((A @ b) @ C), off + length b + k)"
    unfolding c k_def .
  have lAb: "length (A @ b) = off + length b" using lA by simp
  have t: "take (off + length b) ((A @ b) @ C) = A @ b"
    using lAb by (metis append_eq_conv_conj)
  have "drop (off + length b + k) ((A @ b) @ C) = drop k C"
    using lAb by (metis drop_append diff_add_inverse drop_all add.commute le_add1 append_Nil drop_drop append_eq_conv_conj)
  also have "\<dots> = drop (off + length (concat (b # bs))) tmp"
    by (simp add: C_def k_def add.commute add.left_commute)
  finally have d: "drop (off + length b + k) ((A @ b) @ C) = drop (off + length (concat (b # bs))) tmp" .
  show ?case using ih unfolding t d by (simp add: A_def k_def add.assoc)
qed

lemma assemble:
  assumes "length tmp = length (concat bs) + length e"
  shows "copy_at (fst (copy_all tmp 0 bs)) (snd (copy_all tmp 0 bs)) e = concat bs @ e"
proof -
  have "0 + length (concat bs) \<le> length tmp" using assms by simp
  from copy_all_fits[OF this]
  have c: "copy_all tmp 0 bs = (concat bs @ drop (length (concat bs)) tmp, length (concat bs))"
    by simp
  have l: "length (drop (length (concat bs)) tmp) = length e" using assms by simp
  show ?thesis unfolding c fst_conv snd_conv copy_at_def using l by simp
qed

lemma makeBytes_props:
  "length (fst (makeBytes h n)) = n"
  "cluster (snd (makeBytes h n)) = cluster h" "addr (snd (makeBytes h n)) = addr h"
  "conn (snd (makeBytes h n)) = conn h" "bw (snd (makeBytes h n)) = bw h"
  "bss (snd (makeBytes h n)) = bss h" "closed (snd (makeBytes h n)) = closed h"
  "readTimeout (snd (makeBytes h n)) = readTimeout h"
  "writeTimeout (snd (makeBytes h n)) = writeTimeout h"
  by (auto simp: makeBytes_def Let_def handlerWriteBufferSize_def handlerReadBufferSize_def)

text \<open>What a run of the loop has read: \<open>pre\<close> is the line the loop is entered with.\<close>

lemma reread_reads:
  "reread c bss0 tl0 bs3 = (c', bss', tl', r) \<Longrightarrow>
   \<exists>rd. wire_in c = concat rd @ wire_in c'
        \<and> events c' = events c @ map Read rd
        \<and> wire_out c' = wire_out c \<and> write_err c' = write_err c
        \<and> conn_closed c' = conn_closed c
        \<and> (r = None \<longrightarrow>
              (case bs3 of None \<Rightarrow> [] | Some l \<Rightarrow> [l]) @ rd \<noteq> []
            \<and> last ((case bs3 of None \<Rightarrow> [] | Some l \<Rightarrow> [l]) @ rd) = endBytes
            \<and> bss' = bss0 @ butlast ((case bs3 of None \<Rightarrow> [] | Some l \<Rightarrow> [l]) @ rd)
            \<and> endBytes \<notin> set (butlast ((case bs3 of None \<Rightarrow> [] | Some l \<Rightarrow> [l]) @ rd)))
        \<and> (r \<noteq> None \<longrightarrow>
              r = Some (Wrap ErrIO ''MC Handler handle reread response bytes'')
            \<and> bss' = bss0 @ (case bs3 of None \<Rightarrow> [] | Some l \<Rightarrow> [l]) @ rd)
        \<and> tl' = tl0 + length (concat bss') - length (concat bss0)"
proof (induction c bss0 tl0 bs3 arbitrary: c' bss' tl' r rule: reread.induct)
  case (1 c bss0 tl0 bs3)
  define pre where "pre = (case bs3 of None \<Rightarrow> [] | Some l \<Rightarrow> [l])"
  show ?case
  proof (cases "bs3 = Some endBytes")
    case True
    then have "c' = c" "bss' = bss0" "tl' = tl0" "r = None"
      using "1.prems" by (simp_all add: reread.simps)
    then show ?thesis using True by (intro exI[of _ "[]"]) simp
  next
    case False
    define bss1 where "bss1 = bss0 @ pre"
    define tl1 where "tl1 = tl0 + length (concat pre)"
    have st: "(case bs3 of None \<Rightarrow> (bss0, tl0) | Some l \<Rightarrow> (bss0 @ [l], tl0 + length l)) = (bss1, tl1)"
      by (cases bs3) (simp_all add: bss1_def tl1_def pre_def)
    have pre_ne: "endBytes \<notin> set pre" using False by (cases bs3) (auto simp: pre_def)
    show ?thesis
    proof (cases "bufio_ReadBytes c delim")
      case (Inl e)
      then have eq: "c' = c" "bss' = bss1" "tl' = tl1"
        "r = Some (Wrap e ''MC Handler handle reread response bytes'')"
        using "1.prems" False st by (simp_all add: reread.simps)
      have "e = ErrIO" using Inl by (rule bufio_ReadBytes_Inl)
      then show ?thesis using eq
        by (intro exI[of _ "[]"]) (simp add: bss1_def tl1_def pre_def[symmetric])
    next
      case (Inr p)
      obtain l c1 where p: "p = (l, c1)" by (cases p)
      have rb: "bufio_ReadBytes c delim = Inr (l, c1)" using Inr p by simp
      note rp = bufio_ReadBytes_Inr[OF rb]
      have rec: "reread c1 bss1 tl1 (Some l) = (c', bss', tl', r)"
        using "1.prems" False st rb by (simp add: reread.simps)
      from "1.IH"[OF False st[symmetric] refl rb[unfolded p[symmetric]] p[symmetric] rec[unfolded p]]
      obtain rd where
        w: "wire_in c1 = concat rd @ wire_in c'"
        and ev: "events c' = events c1 @ map Read rd"
        and fr: "wire_out c' = wire_out c1" "write_err c' = write_err c1"
                "conn_closed c' = conn_closed c1"
        and ok: "r = None \<longrightarrow> [l] @ rd \<noteq> [] \<and> last ([l] @ rd) = endBytes
                   \<and> bss' = bss1 @ butlast ([l] @ rd) \<and> endBytes \<notin> set (butlast ([l] @ rd))"
        and er: "r \<noteq> None \<longrightarrow> r = Some (Wrap ErrIO ''MC Handler handle reread response bytes'')
                   \<and> bss' = bss1 @ [l] @ rd"
        and tl: "tl' = tl1 + length (concat bss') - length (concat bss1)"
        by auto
      have 1: "wire_in c = concat (l # rd) @ wire_in c'" using rp(1) w by simp
      have 2: "events c' = events c @ map Read (l # rd)" using rp(4) ev by simp
      have 3: "r = None \<longrightarrow> pre @ (l # rd) \<noteq> [] \<and> last (pre @ (l # rd)) = endBytes
                   \<and> bss' = bss0 @ butlast (pre @ (l # rd))
                   \<and> endBytes \<notin> set (butlast (pre @ (l # rd)))"
        using ok pre_ne by (auto simp: bss1_def butlast_append)
      have 4: "r \<noteq> None \<longrightarrow> r = Some (Wrap ErrIO ''MC Handler handle reread response bytes'')
                   \<and> bss' = bss0 @ pre @ (l # rd)"
        using er by (simp add: bss1_def)
      have "length (concat bss1) \<le> length (concat bss')"
        using ok er by (cases r) (auto simp: bss1_def)
      then have 5: "tl' = tl0 + length (concat bss') - length (concat bss0)"
        using tl by (simp add: tl1_def bss1_def)
      show ?thesis unfolding pre_def[symmetric]
        using 1 2 3 4 5 fr rp(5,6,7) by (intro exI[of _ "l # rd"]) simp
    qed
  qed
qed

lemma join_reply_eq:
  assumes "tl0 = length (concat (bss h))"
  shows "join_reply h tl0 = (concat (bss h) @ endBytes, snd (makeBytes h (tl0 + endBytesLen)))"
proof -
  define hm where "hm = makeBytes h (tl0 + endBytesLen)"
  have l: "length (fst hm) = length (concat (bss h)) + length endBytes"
    unfolding hm_def makeBytes_props(1) by (simp add: assms endBytes_def endBytesLen_def)
  have bssm: "bss (snd hm) = bss h" unfolding hm_def by (simp add: makeBytes_props)
  have "copy_at (fst (copy_all (fst hm) 0 (bss h))) (snd (copy_all (fst hm) 0 (bss h))) endBytes
          = concat (bss h) @ endBytes"
    using assemble[OF l] .
  then show ?thesis using bssm
    by (simp add: join_reply_def Let_def case_prod_beta hm_def)
qed

lemma read_reply_hit_ok:
  assumes rb: "bufio_ReadBytes (conn h) delim = Inr (bs, c1)"
    and re: "is_retrieval (MCRequest.rTp mcr)" and ne: "bs \<noteq> endBytes"
    and s4: "\<not> length (bytes_Split1 bs spaceByte) < 4"
    and s2: "\<not> (length (bytes_Split1 bs spaceByte) = 4 \<and> length (bytes_Split1 bs spaceByte ! 3) < 2)"
    and bt: "conv_Btoi (if length (bytes_Split1 bs spaceByte) = 4
                        then take (length (bytes_Split1 bs spaceByte ! 3) - 2) (bytes_Split1 bs spaceByte ! 3)
                        else bytes_Split1 bs spaceByte ! 3) = Some len"
    and rf: "bufio_ReadFull c1 (plus2 len) = Inr (bs2, c2)"
    and rr: "reread c2 [bs, bs2] (length bs + length bs2) None = (c3, bss3, tl3, None)"
  shows "read_reply st h mcr
           = (stat_Hit (cluster h) (addr h) st,
              snd (makeBytes (h\<lparr> conn := c3, bss := bss3 \<rparr>) (tl3 + endBytesLen)),
              Inr (concat bss3 @ endBytes))"
proof -
  from reread_reads[OF rr] have tl: "tl3 = length bs + length bs2 + length (concat bss3) - length (concat [bs, bs2])"
    and b3: "\<exists>rd. bss3 = [bs, bs2] @ butlast rd" by auto
  then have tl3: "tl3 = length (concat (bss (h\<lparr> conn := c1, conn := c3, bss := bss3 \<rparr>)))" by auto
  show ?thesis
    using rb re ne s4 s2 bt rf rr join_reply_eq[OF tl3]
    by (simp add: read_reply_def Let_def case_prod_beta)
qed

lemma read_reply_reads:
  assumes rr: "read_reply st h mcr = (st', h', res)"
  shows "\<exists>chunks. wire_in (conn h) = concat chunks @ wire_in (conn h')
     \<and> events (conn h') = events (conn h) @ map Read chunks
     \<and> wire_out (conn h') = wire_out (conn h) \<and> write_err (conn h') = write_err (conn h)
     \<and> conn_closed (conn h') = conn_closed (conn h)
     \<and> cluster h' = cluster h \<and> addr h' = addr h \<and> bw h' = bw h \<and> closed h' = closed h
     \<and> (\<forall>d. res = Inr d \<longrightarrow> d = concat chunks \<and> chunks \<noteq> []
            \<and> (is_retrieval (MCRequest.rTp mcr) \<longrightarrow>
                  chunks = [endBytes]
                  \<or> (\<exists>hdr body more. chunks = hdr # body # more @ [endBytes]
                        \<and> hdr \<noteq> endBytes \<and> hdr \<noteq> [] \<and> last hdr = delim \<and> endBytes \<notin> set more)))
     \<and> (\<forall>e. res = Inl e \<longrightarrow> (\<exists>msg. e = Wrap ErrIO msg \<or> e = Wrap ErrBadResponse msg))"
proof (cases "bufio_ReadBytes (conn h) delim")
  case (Inl e)
  then have "e = ErrIO" by (rule bufio_ReadBytes_Inl)
  then have "st' = st" "h' = h" "res = Inl (Wrap ErrIO ''MC Handler handle read response bytes'')"
    using rr Inl by (simp_all add: read_reply_def)
  then show ?thesis by (intro exI[of _ "[]"]) simp
next
  case (Inr p)
  obtain bs c1 where p: "p = (bs, c1)" by (cases p)
  have rb: "bufio_ReadBytes (conn h) delim = Inr (bs, c1)" using Inr p by simp
  note r1 = bufio_ReadBytes_Inr[OF rb]
  define bss0 where "bss0 = bytes_Split1 bs spaceByte"
  define b3 where "b3 = (if length bss0 = 4 then take (length (bss0 ! 3) - 2) (bss0 ! 3) else bss0 ! 3)"
  consider (plain) "\<not> is_retrieval (MCRequest.rTp mcr)"
    | (miss) "is_retrieval (MCRequest.rTp mcr)" "bs = endBytes"
    | (bad) "is_retrieval (MCRequest.rTp mcr)" "bs \<noteq> endBytes"
        "length bss0 < 4 \<or> (length bss0 = 4 \<and> length (bss0 ! 3) < 2) \<or> conv_Btoi b3 = None"
    | (len) len where "is_retrieval (MCRequest.rTp mcr)" "bs \<noteq> endBytes"
        "\<not> length bss0 < 4" "\<not> (length bss0 = 4 \<and> length (bss0 ! 3) < 2)" "conv_Btoi b3 = Some len"
    by (cases "conv_Btoi b3") auto
  then show ?thesis
  proof cases
    case plain
    then have "h' = h\<lparr> conn := c1 \<rparr>" "res = Inr bs"
      using rr rb by (simp_all add: read_reply_def)
    then show ?thesis using r1 plain by (intro exI[of _ "[bs]"]) simp
  next
    case miss
    then have "h' = h\<lparr> conn := c1 \<rparr>" "res = Inr bs"
      using rr rb by (simp_all add: read_reply_def)
    then show ?thesis using r1 miss by (intro exI[of _ "[bs]"]) simp
  next
    case bad
    have hr: "h' = h\<lparr> conn := c1 \<rparr> \<and> (\<exists>msg. res = Inl (Wrap ErrBadResponse msg))"
    proof (cases "length (bytes_Split1 bs spaceByte) < 4")
      case True
      then show ?thesis using rr by (auto simp add: read_reply_def Let_def rb bad(1) bad(2))
    next
      case n4: False
      show ?thesis
      proof (cases "length (bytes_Split1 bs spaceByte) = 4 \<and> length (bytes_Split1 bs spaceByte ! 3) < 2")
        case True
        then show ?thesis using rr n4 by (auto simp add: read_reply_def Let_def rb bad(1) bad(2))
      next
        case n2: False
        have f4: "(length (bytes_Split1 bs spaceByte) < 4) = False" using n4 by simp
        have f2: "(length (bytes_Split1 bs spaceByte) = 4 \<and> length (bytes_Split1 bs spaceByte ! 3) < 2) = False"
          using n2 by simp
        have "conv_Btoi b3 = None" using bad(3) n4 n2 by (simp add: bss0_def)
        then have "conv_Btoi (if length (bytes_Split1 bs spaceByte) = 4
                        then take (length (bytes_Split1 bs spaceByte ! 3) - 2) (bytes_Split1 bs spaceByte ! 3)
                        else bytes_Split1 bs spaceByte ! 3) = None"
          unfolding b3_def bss0_def .
        then show ?thesis using rr by (auto simp add: read_reply_def Let_def rb bad(1) bad(2) f4 f2)
      qed
    qed
    then show ?thesis using r1 by (intro exI[of _ "[bs]"]) auto
  next
    case len
    note bt = len(5)[unfolded b3_def bss0_def]
    have n4: "(length (bytes_Split1 bs spaceByte) < 4) = False" using len(3) by (simp add: bss0_def)
    have n2: "(length (bytes_Split1 bs spaceByte) = 4 \<and> length (bytes_Split1 bs spaceByte ! 3) < 2) = False"
      using len(4) by (simp add: bss0_def)
    note pre = rb len(1) len(2) n4 n2 bt
    show ?thesis
    proof (cases "bufio_ReadFull c1 (plus2 len)")
      case (Inl e)
      then have "h' = h\<lparr> conn := c1 \<rparr>"
        "res = Inl (Wrap ErrBadResponse ''MC Handler handle read response bytes read'')"
        using rr Inl by (simp_all add: read_reply_def Let_def pre)
      then show ?thesis using r1 by (intro exI[of _ "[bs]"]) simp
    next
      case (Inr q)
      obtain bs2 c2 where q: "q = (bs2, c2)" by (cases q)
      have rf: "bufio_ReadFull c1 (plus2 len) = Inr (bs2, c2)" using Inr q by simp
      note r2 = bufio_ReadFull_Inr[OF rf]
      obtain c3 bss3 tl3 r where rq: "reread c2 [bs, bs2] (length bs + length bs2) None = (c3, bss3, tl3, r)"
        by (cases "reread c2 [bs, bs2] (length bs + length bs2) None") auto
      from reread_reads[OF rq] obtain rd where
        w: "wire_in c2 = concat rd @ wire_in c3"
        and ev: "events c3 = events c2 @ map Read rd"
        and fr: "wire_out c3 = wire_out c2" "write_err c3 = write_err c2" "conn_closed c3 = conn_closed c2"
        and ok: "r = None \<longrightarrow> rd \<noteq> [] \<and> last rd = endBytes \<and> bss3 = [bs, bs2] @ butlast rd
                   \<and> endBytes \<notin> set (butlast rd)"
        and er: "r \<noteq> None \<longrightarrow> r = Some (Wrap ErrIO ''MC Handler handle reread response bytes'')"
        by auto
      have W: "wire_in (conn h) = concat (bs # bs2 # rd) @ wire_in c3" using r1(1) r2(1) w by simp
      have E: "events c3 = events (conn h) @ map Read (bs # bs2 # rd)" using r1(4) r2(3) ev by simp
      have F: "wire_out c3 = wire_out (conn h)" "write_err c3 = write_err (conn h)"
        "conn_closed c3 = conn_closed (conn h)" using fr r1 r2 by simp_all
      show ?thesis
      proof (cases r)
        case None
        note eq = read_reply_hit_ok[OF rb len(1) len(2) len(3)[unfolded bss0_def]
            len(4)[unfolded bss0_def] bt rf rq[unfolded None], of st]
        define hm where "hm = snd (makeBytes (h\<lparr> conn := c3, bss := bss3 \<rparr>) (tl3 + endBytesLen))"
        have h': "h' = hm" and res: "res = Inr (concat bss3 @ endBytes)"
          using rr eq by (simp_all add: hm_def)
        have hf: "conn hm = c3" "cluster hm = cluster h" "addr hm = addr h" "bw hm = bw h"
          "closed hm = closed h" by (simp_all add: hm_def makeBytes_props)
        have rdd: "rd = butlast rd @ [endBytes]" using ok None by (metis append_butlast_last_id)
        have ch: "bs # bs2 # rd = bs # bs2 # butlast rd @ [endBytes]" using rdd by simp
        have b3e: "bss3 = [bs, bs2] @ butlast rd" using ok None by simp
        have "concat (bs # bs2 # rd) = concat ([bs, bs2] @ butlast rd) @ concat [endBytes]"
          by (subst rdd) simp
        then have cc: "concat bss3 @ endBytes = concat (bs # bs2 # rd)" unfolding b3e by simp
        have sh: "\<exists>hdr body more. bs # bs2 # rd = hdr # body # more @ [endBytes]
                        \<and> hdr \<noteq> endBytes \<and> hdr \<noteq> [] \<and> last hdr = delim \<and> endBytes \<notin> set more"
          using ch ok None len(2) r1(2) r1(3) by blast
        show ?thesis unfolding h' res
          using W E F hf cc sh by (intro exI[of _ "bs # bs2 # rd"]) simp
      next
        case (Some e)
        then have e: "e = Wrap ErrIO ''MC Handler handle reread response bytes''" using er by simp
        have "h' = h\<lparr> conn := c3, bss := bss3 \<rparr>" "res = Inl e"
          using rr by (simp_all add: read_reply_def Let_def pre rf rq Some)
        then show ?thesis using W E F e by (intro exI[of _ "bs # bs2 # rd"]) simp
      qed
    qed
  qed
qed

lemma read_reply_stat:
  "fst (read_reply st h mcr) =
     (case bufio_ReadBytes (conn h) delim of
        Inl e \<Rightarrow> st
      | Inr (bs, c1) \<Rightarrow>
          if is_retrieval (MCRequest.rTp mcr)
          then (if bs = endBytes then stat_Miss (cluster h) (addr h) st
                else stat_Hit (cluster h) (addr h) st)
          else st)"
proof (cases "bufio_ReadBytes (conn h) delim")
  case (Inl e)
  then show ?thesis by (simp add: read_reply_def)
next
  case (Inr p)
  obtain bs c1 where p: "p = (bs, c1)" by (cases p)
  have rb: "bufio_ReadBytes (conn h) delim = Inr (bs, c1)" using Inr p by simp
  show ?thesis
  proof (cases "is_retrieval (MCRequest.rTp mcr) \<and> bs \<noteq> endBytes")
    case False
    then show ?thesis using rb by (auto simp: read_reply_def)
  next
    case True
    have "fst (read_reply st h mcr) = stat_Hit (cluster h) (addr h) st"
      using rb True
      by (simp add: read_reply_def Let_def case_prod_beta split: option.split sum.split)
    then show ?thesis using rb True by simp
  qed
qed

lemma read_reply_stat_ok:
  assumes rr: "read_reply st h mcr = (st', h', Inr d)"
  shows "st' = (if is_retrieval (MCRequest.rTp mcr)
                then (if d = endBytes then stat_Miss (cluster h) (addr h) st
                      else stat_Hit (cluster h) (addr h) st)
                else st)"
proof (cases "bufio_ReadBytes (conn h) delim")
  case (Inl e)
  then show ?thesis using rr by (simp add: read_reply_def)
next
  case (Inr p)
  obtain bs c1 where p: "p = (bs, c1)" by (cases p)
  have rb: "bufio_ReadBytes (conn h) delim = Inr (bs, c1)" using Inr p by simp
  have st': "st' = (if is_retrieval (MCRequest.rTp mcr)
          then (if bs = endBytes then stat_Miss (cluster h) (addr h) st
                else stat_Hit (cluster h) (addr h) st)
          else st)"
    using read_reply_stat[of st h mcr] rr rb by simp
  have "d = endBytes \<longleftrightarrow> bs = endBytes" if re: "is_retrieval (MCRequest.rTp mcr)"
  proof (cases "bs = endBytes")
    case True
    then have "d = bs" using rr rb re by (simp add: read_reply_def)
    then show ?thesis using True by simp
  next
    case False
    from read_reply_reads[OF rr] obtain chunks where
      w: "wire_in (conn h) = concat chunks @ wire_in (conn h')"
      and d: "d = concat chunks"
      and sh: "chunks = [endBytes]
                  \<or> (\<exists>hdr body more. chunks = hdr # body # more @ [endBytes]
                        \<and> hdr \<noteq> endBytes \<and> hdr \<noteq> [] \<and> last hdr = delim \<and> endBytes \<notin> set more)"
      using re by auto
    have bsne: "bs \<noteq> []" using bufio_ReadBytes_Inr(2)[OF rb] .
    have c1w: "wire_in (conn h) = bs @ wire_in c1" using bufio_ReadBytes_Inr(1)[OF rb] .
    have "d \<noteq> endBytes"
    proof
      assume de: "d = endBytes"
      have "bs = takeWhile (\<lambda>x. x \<noteq> delim) (wire_in (conn h)) @ [delim]"
        using rb by (auto simp: bufio_ReadBytes_def Let_def split: if_splits)
      moreover have "wire_in (conn h) = endBytes @ wire_in (conn h')" using w d de by simp
      then have "takeWhile (\<lambda>x. x \<noteq> delim) (wire_in (conn h)) = ''END'' @ [CHR 0x0D]"
        by (simp add: endBytes_def delim_def)
      ultimately show False using False by (simp add: endBytes_def delim_def)
    qed
    then show ?thesis using False by simp
  qed
  then show ?thesis using st' by auto
qed




subsection \<open>The ways through Handle\<close>



subsection \<open>The handler on the example connections\<close>




subsection \<open>Requests written, then replies read in order\<close>



subsection \<open>The reply bytes of a retrieval\<close>




subsection \<open>Hits and misses\<close>




subsection \<open>Errors and the closed flag\<close>




end
